theory Spec2Isabelle
  imports Main
begin

section \<open>Values shared by the connector and the hub\<close>

text \<open>
  The connector (\<^verbatim>\<open>BrowserStackConnector\<close>) talks to the device farm through the
  \<^verbatim>\<open>browserstack\<close> client, whose calls take a node-style callback \<^verbatim>\<open>(err, res)\<close>.
  An answer of the client is a sum: \<open>Inl err\<close> when the callback gets an error (and
  \<^verbatim>\<open>undefined\<close> as its second argument), \<open>Inr res\<close> otherwise.

  Every \<^verbatim>\<open>async\<close> method of the source returns a promise; a settled promise is a sum too,
  \<open>Inl\<close> the rejection and \<open>Inr\<close> the value. A leading underscore of a source name is
  written as the prefix \<open>u_\<close> (\<^verbatim>\<open>_getWorker\<close> is \<open>u_getWorker\<close>).
\<close>

datatype error =
    ApiError string          \<comment> \<open>the \<^verbatim>\<open>err\<close> the client hands to a callback\<close>
  | TypeError                \<comment> \<open>reading a property of \<^verbatim>\<open>undefined\<close> or \<^verbatim>\<open>null\<close>\<close>
  | Error string             \<comment> \<open>\<^verbatim>\<open>new Error(message)\<close>\<close>
  | Reason string            \<comment> \<open>\<^verbatim>\<open>reject('...')\<close> with a plain string\<close>
  | UnableToStart string error
      \<comment> \<open>\<^verbatim>\<open>new Error(`Unable to start browser ${name} due to: ${error}`)\<close>, name and cause kept apart\<close>

record worker =
  worker_id :: string
  status :: string
  browser_url :: string

record api_status =
  sessions_limit :: int

text \<open>
  The object handed to \<^verbatim>\<open>client.createWorker\<close>. Its fields carry the prefix \<open>s_\<close>; the
  template string \<^verbatim>\<open>`http://${os.hostname()}:${this.hubPort}/${browserId}?url=${url}`\<close> is
  kept as its four parts.
\<close>

record hub_url =
  host :: string
  port :: nat
  path_id :: string
  url_param :: string

record settings =
  s_os :: string
  s_os_version :: string
  s_browser :: "string option"
  s_browser_version :: string
  s_device :: "string option"
  s_url :: hub_url
  s_timeout :: int
  s_name :: "string option"
  s_build :: "string option"
  s_localIdentifier :: int
  s_realMobile :: "bool option"

datatype response =
    Redirect nat string   \<comment> \<open>status and the \<^verbatim>\<open>Location\<close> header\<close>
  | Allow string          \<comment> \<open>200 with the \<^verbatim>\<open>Allow\<close> header: the framework's answer to \<^verbatim>\<open>OPTIONS\<close>\<close>
  | NotFound              \<comment> \<open>no route matched: the framework's 404\<close>

text \<open>What a method does besides returning: the calls it makes, in order. A timer, a hub
  listener and a create request belong to one call of \<^verbatim>\<open>_startBrowser\<close>; the number says
  which (the calls are numbered from 0 as they are made).\<close>

datatype effect =
    GetApiStatus                 \<comment> \<open>\<^verbatim>\<open>client.getApiStatus\<close>\<close>
  | GetWorkers                   \<comment> \<open>\<^verbatim>\<open>client.getWorkers\<close>\<close>
  | GetWorker string             \<comment> \<open>\<^verbatim>\<open>client.getWorker(id, ...)\<close>\<close>
  | Wait int                     \<comment> \<open>\<^verbatim>\<open>await wait(ms)\<close>\<close>
  | LogError string              \<comment> \<open>\<^verbatim>\<open>this._log(err)\<close>\<close>
  | LogShortfall int int         \<comment> \<open>the "number of free machines (f) is less than requested (m)" line\<close>
  | SetTimeout nat "int option"  \<comment> \<open>\<^verbatim>\<open>setTimeout(..., openingTimeout)\<close>\<close>
  | ClearTimeout nat             \<comment> \<open>\<^verbatim>\<open>clearTimeout(timeoutId)\<close>\<close>
  | AddListener string nat       \<comment> \<open>\<^verbatim>\<open>hub.addListener(event, hubHandler)\<close>\<close>
  | RemoveListener string nat    \<comment> \<open>\<^verbatim>\<open>hub.removeListener(event, hubHandler)\<close>\<close>
  | CreateWorker nat settings    \<comment> \<open>\<^verbatim>\<open>client.createWorker(settings, ...)\<close>\<close>
  | TerminateWorker string       \<comment> \<open>\<^verbatim>\<open>client.terminateWorker(workerId, ...)\<close>\<close>
  | LogStarted "string option" string  \<comment> \<open>the "${name} started. See ${browser_url}" line\<close>
  | Respond response             \<comment> \<open>the hub's answer to a request\<close>

text \<open>
  Modelled from the spec: \<^verbatim>\<open>./utils/wait\<close> is imported by the connector and is not among
  the sources. The spec calls it a sleep of the given interval; here it is the effect
  \<open>Wait ms\<close>, after which the caller goes on.
\<close>

definition wait :: "int \<Rightarrow> effect list" where
  "wait ms = [Wait ms]"

section \<open>Admission: free machines\<close>

text \<open>\<^verbatim>\<open>_getWorkers\<close> resolves with \<^verbatim>\<open>res\<close> whatever \<^verbatim>\<open>err\<close> is: on an error the value
  is \<^verbatim>\<open>undefined\<close>, here \<open>None\<close>. It never rejects.\<close>

definition u_getWorkers :: "string + worker list \<Rightarrow> worker list option" where
  "u_getWorkers answer = (case answer of Inl err \<Rightarrow> None | Inr res \<Rightarrow> Some res)"

text \<open>\<^verbatim>\<open>_getMaxAvailableMachines\<close> logs and rejects with \<^verbatim>\<open>err\<close>, or resolves with
  \<^verbatim>\<open>status.sessions_limit\<close>.\<close>

definition u_getMaxAvailableMachines :: "string + api_status \<Rightarrow> (error + int) \<times> effect list" where
  "u_getMaxAvailableMachines answer =
     (case answer of
        Inl err \<Rightarrow> (Inl (ApiError err), [LogError err])
      | Inr st \<Rightarrow> (Inr (sessions_limit st), []))"

text \<open>
  \<^verbatim>\<open>_getFreeMachineCount\<close> starts both queries, awaits \<^verbatim>\<open>Promise.all\<close> of them and returns
  \<^verbatim>\<open>maxMachines - workers.length\<close>. Only the quota promise can reject, so \<^verbatim>\<open>Promise.all\<close>
  rejects exactly with the quota error; when the listing failed, \<^verbatim>\<open>workers\<close> is
  \<^verbatim>\<open>undefined\<close> and \<^verbatim>\<open>workers.length\<close> throws a TypeError.
\<close>

type_synonym poll = "(string + api_status) \<times> (string + worker list)"

definition u_getFreeMachineCount :: "poll \<Rightarrow> (error + int) \<times> effect list" where
  "u_getFreeMachineCount p =
     (let (r, logged) = u_getMaxAvailableMachines (fst p);
          tr = [GetApiStatus, GetWorkers] @ logged
      in case r of
           Inl e \<Rightarrow> (Inl e, tr)
         | Inr maxMachines \<Rightarrow>
             (case u_getWorkers (snd p) of
                None \<Rightarrow> (Inl TypeError, tr)
              | Some workers \<Rightarrow> (Inr (maxMachines - int (length workers)), tr)))"

text \<open>
  \<^verbatim>\<open>waitForFreeMachines(machineCount, requestInterval, maxAttemptCount)\<close>. The farm's answers
  to the successive polls are \<open>env 0\<close>, \<open>env 1\<close>, ...; \<open>attempts\<close> is the loop counter, 0
  at the call.
\<close>

function waitForFreeMachines_from ::
  "(nat \<Rightarrow> poll) \<Rightarrow> int \<Rightarrow> int \<Rightarrow> int \<Rightarrow> nat \<Rightarrow> (error + unit) \<times> effect list" where
  "waitForFreeMachines_from env machineCount requestInterval maxAttemptCount attempts =
     (if int attempts < maxAttemptCount then
        (case u_getFreeMachineCount (env attempts) of
           (Inl e, tr) \<Rightarrow> (Inl e, tr)
         | (Inr freeMachineCount, tr) \<Rightarrow>
             if freeMachineCount \<ge> machineCount then (Inr (), tr)
             else
               (let (r, rest) = waitForFreeMachines_from env machineCount requestInterval
                                  maxAttemptCount (Suc attempts)
                in (r, tr @ [LogShortfall freeMachineCount machineCount] @ wait requestInterval @ rest)))
      else (Inl (Error ''There are no free machines''), []))"
  by pat_completeness auto
termination
  by (relation "measure (\<lambda>(env, m, r, mx, a). nat (mx - int a))") auto

definition waitForFreeMachines ::
  "(nat \<Rightarrow> poll) \<Rightarrow> int \<Rightarrow> int \<Rightarrow> int \<Rightarrow> (error + unit) \<times> effect list" where
  "waitForFreeMachines env machineCount requestInterval maxAttemptCount =
     waitForFreeMachines_from env machineCount requestInterval maxAttemptCount 0"

section \<open>Polling one worker\<close>

text \<open>
  \<^verbatim>\<open>_getWorker(id)\<close>: the inner \<^verbatim>\<open>getWorker\<close> resolves with the callback's second argument
  (\<^verbatim>\<open>undefined\<close> on an error). The loop \<^verbatim>\<open>while (attempts++ <= maxAttempts)\<close> tests the
  counter before incrementing it; \<open>attempts\<close> below is the value tested. Falling out of the
  loop returns \<^verbatim>\<open>undefined\<close>.
\<close>

definition getWorker :: "string + worker \<Rightarrow> worker option" where
  "getWorker answer = (case answer of Inl err \<Rightarrow> None | Inr w \<Rightarrow> Some w)"

definition maxAttempts :: nat where
  "maxAttempts = 30"

definition requestTimeout :: int where
  "requestTimeout = 10000"

function u_getWorker_from ::
  "(string \<Rightarrow> nat \<Rightarrow> string + worker) \<Rightarrow> string \<Rightarrow> nat \<Rightarrow> (error + worker option) \<times> effect list" where
  "u_getWorker_from env wid attempts =
     (if attempts \<le> maxAttempts then
        (case getWorker (env wid attempts) of
           None \<Rightarrow>
             (let (r, rest) = u_getWorker_from env wid (Suc attempts)
              in (r, GetWorker wid # wait requestTimeout @ rest))
         | Some w \<Rightarrow>
             if status w = ''running'' then (Inr (Some w), [GetWorker wid])
             else
               (let (r, rest) = u_getWorker_from env wid (Suc attempts)
                in (r, GetWorker wid # wait requestTimeout @ rest)))
      else (Inr None, []))"
  by pat_completeness auto
termination
  by (relation "measure (\<lambda>(env, w, a). Suc maxAttempts - a)") auto

definition u_getWorker ::
  "(string \<Rightarrow> nat \<Rightarrow> string + worker) \<Rightarrow> string \<Rightarrow> (error + worker option) \<times> effect list" where
  "u_getWorker env wid = u_getWorker_from env wid 0"

text \<open>\<^verbatim>\<open>getSessionUrl(id)\<close> returns \<^verbatim>\<open>worker && worker.browser_url\<close>.\<close>

definition getSessionUrl ::
  "(string \<Rightarrow> nat \<Rightarrow> string + worker) \<Rightarrow> string \<Rightarrow> (error + string option) \<times> effect list" where
  "getSessionUrl env wid =
     (case u_getWorker env wid of
        (Inl e, tr) \<Rightarrow> (Inl e, tr)
      | (Inr None, tr) \<Rightarrow> (Inr None, tr)
      | (Inr (Some w), tr) \<Rightarrow> (Inr (Some (browser_url w)), tr))"

section \<open>The hub\<close>

text \<open>
  \<^verbatim>\<open>Hub\<close> is an \<^verbatim>\<open>EventEmitter\<close> with an HTTP server in front, built with the Express
  framework (version 4), which is not code of this repository. What the framework does around
  the one handler of \<^verbatim>\<open>_setupRoutes\<close> is written out below, each part named after the
  framework's operation.

  A request is taken as the framework hands it to the router, and has no body (the
  \<^verbatim>\<open>urlencoded\<close> body parser passes such a request on untouched):
  \<^item> \<open>http_method\<close>: the method, in capitals;
  \<^item> \<open>path\<close>: the pathname without its leading slash, split at every slash, each piece
    percent-decoded: \<^verbatim>\<open>/abc\<close> is one piece, \<^verbatim>\<open>/abc/\<close> is that piece and an empty one,
    \<^verbatim>\<open>/\<close> is one empty piece, \<^verbatim>\<open>/a/b\<close> is two pieces;
  \<^item> \<open>query_url\<close>: the decoded \<^verbatim>\<open>url\<close> query parameter, \<open>None\<close> when the query has none;
  \<^item> \<open>referrer\<close>: the \<^verbatim>\<open>Referer\<close> header, \<open>None\<close> when absent.
\<close>

record request =
  http_method :: string
  path :: "string list"
  query_url :: "string option"
  referrer :: "string option"

text \<open>
  The pattern \<^verbatim>\<open>'/:id'\<close> matches one non-empty segment, with or without one trailing slash,
  and binds the segment to \<^verbatim>\<open>req.params.id\<close>.
\<close>

definition match_path :: "string list \<Rightarrow> string option" where
  "match_path p =
     (case p of
        [seg] \<Rightarrow> if seg = [] then None else Some seg
      | [seg, rest] \<Rightarrow> if seg = [] \<or> rest \<noteq> [] then None else Some seg
      | _ \<Rightarrow> None)"

text \<open>
  The one route is \<^verbatim>\<open>app.get('/:id', ...)\<close>. Its handler runs for \<^verbatim>\<open>GET\<close> and, there being
  no \<^verbatim>\<open>head\<close> route, for \<^verbatim>\<open>HEAD\<close>; \<open>match_route\<close> gives the \<^verbatim>\<open>req.params.id\<close> it runs
  with.
\<close>

definition match_route :: "request \<Rightarrow> string option" where
  "match_route req =
     (case match_path (path req) of
        None \<Rightarrow> None
      | Some seg \<Rightarrow> if http_method req = ''GET'' \<or> http_method req = ''HEAD'' then Some seg else None)"

text \<open>
  \<^verbatim>\<open>res.location(url)\<close> sets the \<^verbatim>\<open>Location\<close> header: \<^verbatim>\<open>'back'\<close> stands for the request's
  referrer, or \<^verbatim>\<open>'/'\<close> when there is none; an \<^verbatim>\<open>undefined\<close> url becomes the string
  \<^verbatim>\<open>'undefined'\<close>; the result goes through the framework's \<^verbatim>\<open>encodeUrl\<close>. That encoder (the
  package \<^verbatim>\<open>encodeurl\<close>) is the parameter \<open>enc\<close>. \<^verbatim>\<open>res.redirect(url)\<close> with no status
  answers 302 with that header.
\<close>

definition location :: "(string \<Rightarrow> string) \<Rightarrow> request \<Rightarrow> string option \<Rightarrow> string" where
  "location enc req url =
     enc (case url of
            None \<Rightarrow> ''undefined''
          | Some u \<Rightarrow>
              if u = ''back'' then
                (case referrer req of None \<Rightarrow> ''/'' | Some r \<Rightarrow> if r = [] then ''/'' else r)
              else u)"

definition redirect :: "(string \<Rightarrow> string) \<Rightarrow> request \<Rightarrow> string option \<Rightarrow> response" where
  "redirect enc req url = Redirect 302 (location enc req url)"

text \<open>
  \<^verbatim>\<open>_setupRoutes\<close>: where the route's handler runs, it emits \<^verbatim>\<open>'open'\<close> with the path's id,
  then redirects to the query's url. An \<^verbatim>\<open>OPTIONS\<close> request on a path the route matches is
  answered by the framework with the methods of the route, the handler not being called; any
  other request gets the 404. The result is the list of events emitted, as (event name,
  argument), and the response.
\<close>

definition u_setupRoutes :: "(string \<Rightarrow> string) \<Rightarrow> request \<Rightarrow> (string \<times> string) list \<times> response" where
  "u_setupRoutes enc req =
     (case match_route req of
        Some urlIdentifier \<Rightarrow> ([(''open'', urlIdentifier)], redirect enc req (query_url req))
      | None \<Rightarrow>
          if http_method req = ''OPTIONS'' \<and> match_path (path req) \<noteq> None
          then ([], Allow ''GET,HEAD'')
          else ([], NotFound))"

section \<open>Opening one session\<close>

record browserSettings =
  os :: string
  osVersion :: string
  name :: "string option"
  version :: "string option"
  device :: "string option"
  realMobile :: "bool option"

text \<open>The arguments of \<^verbatim>\<open>_startBrowser\<close>; an omitted one is \<open>None\<close>.\<close>

record startArgs =
  browserSettings :: browserSettings
  url :: string
  jobName :: "string option"
  build :: "string option"
  workingTimeout :: "int option"
  openingTimeout :: "int option"

text \<open>What the constructor fixed: \<^verbatim>\<open>os.hostname()\<close>, \<^verbatim>\<open>this.hubPort\<close> and
  \<^verbatim>\<open>this.tunnelIdentifier\<close>; and, for the hub it creates, the framework's \<^verbatim>\<open>encodeUrl\<close>
  (see \<open>location\<close>).\<close>

record connector =
  hostname :: string
  hubPort :: nat
  tunnelIdentifier :: int
  encodeUrl :: "string \<Rightarrow> string"

definition DEFAULT_BROWSER_OPENING_MAX_ATTEMPT :: int where
  "DEFAULT_BROWSER_OPENING_MAX_ATTEMPT = 3"

definition DEFAULT_BROWSER_OPENING_TIMEOUT :: int where
  "DEFAULT_BROWSER_OPENING_TIMEOUT = 60 * 1000"

text \<open>\<^verbatim>\<open>x || d\<close> on an optional string and on an optional number: the empty string and 0
  are falsy.\<close>

definition or_string :: "string option \<Rightarrow> string \<Rightarrow> string" where
  "or_string x d = (case x of None \<Rightarrow> d | Some v \<Rightarrow> if v = [] then d else v)"

definition or_null :: "string option \<Rightarrow> string option" where
  "or_null x = (case x of None \<Rightarrow> None | Some v \<Rightarrow> if v = [] then None else Some v)"

definition or_int :: "int option \<Rightarrow> int \<Rightarrow> int" where
  "or_int x d = (case x of None \<Rightarrow> d | Some v \<Rightarrow> if v = 0 then d else v)"

text \<open>The settings built inside \<^verbatim>\<open>createWorker\<close>.\<close>

definition createWorker_settings :: "connector \<Rightarrow> string \<Rightarrow> startArgs \<Rightarrow> settings" where
  "createWorker_settings this browserId args =
     (let bs = browserSettings args in
      \<lparr> s_os = os bs,
        s_os_version = osVersion bs,
        s_browser = or_null (name bs),
        s_browser_version = or_string (version bs) ''latest'',
        s_device = or_null (device bs),
        s_url = \<lparr> host = hostname this, port = hubPort this, path_id = browserId, url_param = url args \<rparr>,
        s_timeout = or_int (workingTimeout args) 1800,
        s_name = jobName args,
        s_build = build args,
        s_localIdentifier = tunnelIdentifier this,
        s_realMobile = realMobile bs \<rparr>)"

text \<open>
  One call of \<^verbatim>\<open>_startBrowser\<close> is an attempt. Its local variables and the promise it
  builds live as long as its closures do:
  \<^item> \<open>worker\<close>: the variable \<^verbatim>\<open>let worker = null\<close>; \<open>None\<close> is \<^verbatim>\<open>null\<close> or \<^verbatim>\<open>undefined\<close>;
  \<^item> \<open>waitForUrlOpened\<close>: the promise, pending, resolved or rejected;
  \<^item> \<open>timeoutId\<close>: the timer and the \<^verbatim>\<open>async\<close> callback it runs: armed, cleared, the
    callback waiting for \<^verbatim>\<open>stopBrowser\<close>, the callback finished, or the callback ended by an
    exception (which nothing catches);
  \<^item> \<open>stage\<close>: the \<^verbatim>\<open>await\<close> the body is suspended at, or how the call ended. Inside
    \<^verbatim>\<open>_getWorker(workerId)\<close> that is the answer to a poll or the sleep after it, with the
    worker's id and the value of the counter \<^verbatim>\<open>attempts\<close> that the loop test last tested.
\<close>

datatype promise = Pending | Resolved | Rejected error

datatype timer = Armed | Cleared | Stopping | Fired | Crashed error

datatype stage =
    AwaitCreateWorker
  | AwaitGetWorker string nat
  | AwaitWait string nat
  | AwaitUrlOpened
  | Returned worker
  | Threw error

record attempt =
  browserId :: string
  browserName :: "string option"
  worker :: "worker option"
  waitForUrlOpened :: promise
  timeoutId :: timer
  stage :: stage

text \<open>
  The hub's listener registry holds (event name, attempt) pairs, the attempt standing for
  its \<^verbatim>\<open>hubHandler\<close> closure. \<open>trace\<close> is everything done so far.
\<close>

record system =
  listeners :: "(string \<times> nat) list"
  attempts :: "attempt list"
  trace :: "effect list"

definition init :: system where
  "init = \<lparr> listeners = [], attempts = [], trace = [] \<rparr>"

text \<open>\<^verbatim>\<open>removeListener\<close> takes out the most recently added instance.\<close>

definition removeListener :: "string \<times> nat \<Rightarrow> (string \<times> nat) list \<Rightarrow> (string \<times> nat) list" where
  "removeListener l ls = rev (remove1 l (rev ls))"

text \<open>
  The end of \<^verbatim>\<open>_startBrowser\<close>, from \<^verbatim>\<open>await waitForUrlOpened\<close> on: it goes on once the
  promise is settled, logs \<^verbatim>\<open>worker.browser_url\<close> (a TypeError when \<^verbatim>\<open>_getWorker\<close> gave
  \<^verbatim>\<open>undefined\<close>) and returns the worker.
\<close>

definition after_await :: "attempt \<Rightarrow> attempt \<times> effect list" where
  "after_await a =
     (if stage a = AwaitUrlOpened then
        (case waitForUrlOpened a of
           Pending \<Rightarrow> (a, [])
         | Rejected e \<Rightarrow> (a\<lparr>stage := Threw e\<rparr>, [])
         | Resolved \<Rightarrow>
             (case worker a of
                None \<Rightarrow> (a\<lparr>stage := Threw TypeError\<rparr>, [])
              | Some w \<Rightarrow> (a\<lparr>stage := Returned w\<rparr>, [LogStarted (browserName a) (browser_url w)])))
      else (a, []))"

text \<open>\<^verbatim>\<open>resolve()\<close> and \<^verbatim>\<open>reject(e)\<close> settle a pending promise and do nothing to a settled
  one; \<^verbatim>\<open>clearTimeout\<close> stops a timer that has not fired.\<close>

definition resolve :: "promise \<Rightarrow> promise" where
  "resolve p = (if p = Pending then Resolved else p)"

definition reject :: "error \<Rightarrow> promise \<Rightarrow> promise" where
  "reject e p = (if p = Pending then Rejected e else p)"

definition clearTimeout :: "timer \<Rightarrow> timer" where
  "clearTimeout t = (if t = Armed then Cleared else t)"

text \<open>
  \<^verbatim>\<open>hubHandler\<close> of attempt \<open>j\<close>, called with \<open>ident\<close>. \<^verbatim>\<open>resolve()\<close> settles the promise;
  the body of \<^verbatim>\<open>_startBrowser\<close> waiting for it goes on later, once the code that called
  \<^verbatim>\<open>emit\<close> has run to its end (\<open>resume\<close> below).
\<close>

definition hubHandler :: "nat \<Rightarrow> string \<Rightarrow> system \<Rightarrow> system" where
  "hubHandler j ident s =
     (if j < length (attempts s) then
        (let a = attempts s ! j in
         if ident = browserId a then
           s\<lparr>listeners := removeListener (''browser-opened'', j) (listeners s),
             attempts := (attempts s)[j := a\<lparr>timeoutId := clearTimeout (timeoutId a),
                                             waitForUrlOpened := resolve (waitForUrlOpened a)\<rparr>],
             trace := trace s @ [RemoveListener ''browser-opened'' j, ClearTimeout j]\<rparr>
         else s)
      else s)"

text \<open>\<^verbatim>\<open>hub.emit(event, ident)\<close> calls the listeners registered for \<open>event\<close> at that moment,
  in the order they were added.\<close>

definition emit :: "string \<Rightarrow> string \<Rightarrow> system \<Rightarrow> system" where
  "emit event ident s =
     foldl (\<lambda>s' j. hubHandler j ident s') s
       (map snd (filter (\<lambda>l. fst l = event) (listeners s)))"

text \<open>
  The handlers among them that were called with their own id, in the order they were
  called: they are the ones whose \<^verbatim>\<open>resolve()\<close> ran. \<open>resume j\<close> is the body of attempt \<open>j\<close>
  going on after \<^verbatim>\<open>await waitForUrlOpened\<close>; \<open>resume_all\<close> does so for a list of attempts.
\<close>

definition woken :: "string \<Rightarrow> string \<Rightarrow> system \<Rightarrow> nat list" where
  "woken event ident s =
     filter (\<lambda>j. j < length (attempts s) \<and> browserId (attempts s ! j) = ident)
       (map snd (filter (\<lambda>l. fst l = event) (listeners s)))"

definition resume :: "nat \<Rightarrow> system \<Rightarrow> system" where
  "resume j s =
     (if j < length (attempts s) then
        (let (a', logged) = after_await (attempts s ! j)
         in s\<lparr>attempts := (attempts s)[j := a'], trace := trace s @ logged\<rparr>)
      else s)"

definition resume_all :: "nat list \<Rightarrow> system \<Rightarrow> system" where
  "resume_all js s = foldl (\<lambda>s' j. resume j s') s js"

text \<open>An \<^verbatim>\<open>emit\<close> on the hub by code outside the connector, and what follows once that code
  has returned.\<close>

definition emitted :: "string \<Rightarrow> string \<Rightarrow> system \<Rightarrow> system" where
  "emitted event ident s = resume_all (woken event ident s) (emit event ident s)"

text \<open>
  \<^verbatim>\<open>_startBrowser\<close> up to its first suspension, \<^verbatim>\<open>await createWorker()\<close>, in the two
  parts the source has. \<open>browserId\<close> is what \<^verbatim>\<open>uid(10)\<close> returned.

  First \<^verbatim>\<open>new Promise(...)\<close> for \<open>waitForUrlOpened\<close>: the executor runs at once, sets the
  timer, then adds \<^verbatim>\<open>hubHandler\<close> to the hub's listeners of \<^verbatim>\<open>'browser-opened'\<close>.
\<close>

definition new_waitForUrlOpened :: "string \<Rightarrow> startArgs \<Rightarrow> system \<Rightarrow> system" where
  "new_waitForUrlOpened browserId' args s =
     (let j = length (attempts s);
          a = \<lparr> browserId = browserId', browserName = name (browserSettings args),
                worker = None, waitForUrlOpened = Pending, timeoutId = Armed,
                stage = AwaitCreateWorker \<rparr>
      in s\<lparr>listeners := listeners s @ [(''browser-opened'', j)],
           attempts := attempts s @ [a],
           trace := trace s @ [SetTimeout j (openingTimeout args),
                               AddListener ''browser-opened'' j]\<rparr>)"

text \<open>Then \<^verbatim>\<open>createWorker()\<close> of attempt \<open>j\<close>: it sends the create request.\<close>

definition createWorker :: "connector \<Rightarrow> string \<Rightarrow> startArgs \<Rightarrow> nat \<Rightarrow> system \<Rightarrow> system" where
  "createWorker this browserId' args j s =
     s\<lparr>trace := trace s @ [CreateWorker j (createWorker_settings this browserId' args)]\<rparr>"

definition u_startBrowser :: "connector \<Rightarrow> string \<Rightarrow> startArgs \<Rightarrow> system \<Rightarrow> system" where
  "u_startBrowser this browserId' args s =
     createWorker this browserId' args (length (attempts s)) (new_waitForUrlOpened browserId' args s)"

text \<open>
  \<^verbatim>\<open>_getWorker(id)\<close> inside an attempt, one suspension at a time. \<open>u_getWorker_next\<close> is the
  loop test \<^verbatim>\<open>attempts++ <= maxAttempts\<close> with the counter at \<open>n\<close>: it sends the next
  \<^verbatim>\<open>client.getWorker\<close> request, or leaves the loop, and then \<^verbatim>\<open>_getWorker\<close> returns
  \<^verbatim>\<open>undefined\<close>, which is assigned to \<^verbatim>\<open>worker\<close>, and the body goes on to
  \<^verbatim>\<open>await waitForUrlOpened\<close>.
\<close>

definition u_getWorker_next :: "nat \<Rightarrow> string \<Rightarrow> nat \<Rightarrow> system \<Rightarrow> system" where
  "u_getWorker_next j workerId n s =
     (let a = attempts s ! j in
      if n \<le> maxAttempts then
        s\<lparr>attempts := (attempts s)[j := a\<lparr>stage := AwaitGetWorker workerId n\<rparr>],
          trace := trace s @ [GetWorker workerId]\<rparr>
      else
        (let (a', logged) = after_await (a\<lparr>worker := None, stage := AwaitUrlOpened\<rparr>)
         in s\<lparr>attempts := (attempts s)[j := a'], trace := trace s @ logged\<rparr>))"

text \<open>The callback of \<^verbatim>\<open>client.createWorker\<close> runs: \<^verbatim>\<open>createWorker()\<close> rejects with the
  error, or resolves with \<^verbatim>\<open>res.id\<close> and \<^verbatim>\<open>_getWorker(workerId)\<close> starts with the counter at
  0.\<close>

definition createWorker_answer :: "nat \<Rightarrow> string + string \<Rightarrow> system \<Rightarrow> system" where
  "createWorker_answer j answer s =
     (if j < length (attempts s) \<and> stage (attempts s ! j) = AwaitCreateWorker then
        (case answer of
           Inl err \<Rightarrow>
             s\<lparr>attempts := (attempts s)[j := (attempts s ! j)\<lparr>stage := Threw (ApiError err)\<rparr>],
               trace := trace s @ [LogError err]\<rparr>
         | Inr workerId \<Rightarrow> u_getWorker_next j workerId 0 s)
      else s)"

text \<open>
  The callback of \<^verbatim>\<open>client.getWorker\<close> runs with the answer to the poll. A running worker
  is what \<^verbatim>\<open>_getWorker\<close> returns: it is assigned to \<^verbatim>\<open>worker\<close> and the body goes on to
  \<^verbatim>\<open>await waitForUrlOpened\<close>. Otherwise the loop sleeps.
\<close>

definition getWorker_answer :: "nat \<Rightarrow> string + worker \<Rightarrow> system \<Rightarrow> system" where
  "getWorker_answer j answer s =
     (if j < length (attempts s) then
        (case stage (attempts s ! j) of
           AwaitGetWorker workerId n \<Rightarrow>
             (let a = attempts s ! j;
                  asleep = s\<lparr>attempts := (attempts s)[j := a\<lparr>stage := AwaitWait workerId n\<rparr>],
                             trace := trace s @ wait requestTimeout\<rparr>
              in case getWorker answer of
                   None \<Rightarrow> asleep
                 | Some w \<Rightarrow>
                     if status w = ''running'' then
                       (let (a', logged) = after_await (a\<lparr>worker := Some w, stage := AwaitUrlOpened\<rparr>)
                        in s\<lparr>attempts := (attempts s)[j := a'], trace := trace s @ logged\<rparr>)
                     else asleep)
         | _ \<Rightarrow> s)
      else s)"

text \<open>The sleep of the loop is over: the loop test runs with the counter one higher.\<close>

definition wait_done :: "nat \<Rightarrow> system \<Rightarrow> system" where
  "wait_done j s =
     (if j < length (attempts s) then
        (case stage (attempts s ! j) of
           AwaitWait workerId n \<Rightarrow> u_getWorker_next j workerId (Suc n) s
         | _ \<Rightarrow> s)
      else s)"

text \<open>
  The timer of attempt \<open>j\<close> fires: the callback removes the listener, then evaluates
  \<^verbatim>\<open>worker.id\<close> for \<^verbatim>\<open>this.stopBrowser(worker.id)\<close>. With \<^verbatim>\<open>worker\<close> still \<^verbatim>\<open>null\<close> that
  throws, and the callback ends there. Otherwise \<^verbatim>\<open>stopBrowser\<close> sends the terminate
  request and the callback waits for it.
\<close>

definition timeout_fires :: "nat \<Rightarrow> system \<Rightarrow> system" where
  "timeout_fires j s =
     (if j < length (attempts s) \<and> timeoutId (attempts s ! j) = Armed then
        (let a = attempts s ! j;
             ls = removeListener (''browser-opened'', j) (listeners s)
         in case worker a of
              None \<Rightarrow>
                s\<lparr>listeners := ls,
                  attempts := (attempts s)[j := a\<lparr>timeoutId := Crashed TypeError\<rparr>],
                  trace := trace s @ [RemoveListener ''browser-opened'' j]\<rparr>
            | Some w \<Rightarrow>
                s\<lparr>listeners := ls,
                  attempts := (attempts s)[j := a\<lparr>timeoutId := Stopping\<rparr>],
                  trace := trace s @ [RemoveListener ''browser-opened'' j, TerminateWorker (worker_id w)]\<rparr>)
      else s)"

text \<open>
  The callback of \<^verbatim>\<open>client.terminateWorker\<close> runs. On an error \<^verbatim>\<open>stopBrowser\<close> logs and
  rejects, which ends the timer's callback before its \<^verbatim>\<open>reject\<close>. Otherwise the callback
  rejects \<^verbatim>\<open>waitForUrlOpened\<close> with the timeout message.
\<close>

definition stopBrowser_answer :: "nat \<Rightarrow> string + int \<Rightarrow> system \<Rightarrow> system" where
  "stopBrowser_answer j answer s =
     (if j < length (attempts s) \<and> timeoutId (attempts s ! j) = Stopping then
        (let a = attempts s ! j in
         case answer of
           Inl err \<Rightarrow>
             s\<lparr>attempts := (attempts s)[j := a\<lparr>timeoutId := Crashed (ApiError err)\<rparr>],
               trace := trace s @ [LogError err]\<rparr>
         | Inr time \<Rightarrow>
             (let (a', logged) =
                    after_await (a\<lparr>timeoutId := Fired,
                                   waitForUrlOpened :=
                                     reject (Reason ''Browser starting timeout expired'') (waitForUrlOpened a)\<rparr>)
              in s\<lparr>attempts := (attempts s)[j := a'], trace := trace s @ logged\<rparr>))
      else s)"

text \<open>A request reaches the hub: the route's handler emits its events and sends the response;
  after it has returned, the attempts it woke go on.\<close>

definition hub_request :: "(string \<Rightarrow> string) \<Rightarrow> request \<Rightarrow> system \<Rightarrow> system" where
  "hub_request enc req s =
     (let (events, res) = u_setupRoutes enc req;
          s' = foldl (\<lambda>s' e. emit (fst e) (snd e) s') s events;
          s'' = s'\<lparr>trace := trace s' @ [Respond res]\<rparr>
      in resume_all (concat (map (\<lambda>e. woken (fst e) (snd e) s) events)) s'')"

text \<open>
  What can happen, one thing at a time: a call of \<^verbatim>\<open>_startBrowser\<close> (with the id \<^verbatim>\<open>uid\<close>
  gave it), a request at the hub, an \<^verbatim>\<open>emit\<close> on the hub by any other code, and the
  completions above.
\<close>

datatype event =
    StartAttempt string startArgs
  | HttpRequest request
  | Emit string string
  | CreateWorkerAnswer nat "string + string"
  | GetWorkerAnswer nat "string + worker"
  | WaitDone nat
  | TimeoutFires nat
  | StopBrowserAnswer nat "string + int"

fun step :: "connector \<Rightarrow> system \<Rightarrow> event \<Rightarrow> system" where
  "step this s (StartAttempt browserId' args) = u_startBrowser this browserId' args s"
| "step this s (HttpRequest req) = hub_request (encodeUrl this) req s"
| "step this s (Emit event ident) = emitted event ident s"
| "step this s (CreateWorkerAnswer j answer) = createWorker_answer j answer s"
| "step this s (GetWorkerAnswer j answer) = getWorker_answer j answer s"
| "step this s (WaitDone j) = wait_done j s"
| "step this s (TimeoutFires j) = timeout_fires j s"
| "step this s (StopBrowserAnswer j answer) = stopBrowser_answer j answer s"

definition run :: "connector \<Rightarrow> system \<Rightarrow> event list \<Rightarrow> system" where
  "run this s evs = foldl (step this) s evs"

section \<open>The retry loop\<close>

text \<open>
  \<^verbatim>\<open>startBrowser\<close> calls \<^verbatim>\<open>_startBrowser\<close> until one call returns a worker or \<open>attempt\<close>
  reaches \<open>maxAttepts\<close>. \<open>script k\<close> gives, for the call made with \<open>attempt = k\<close>, the id
  \<^verbatim>\<open>uid\<close> returns and the events that happen while \<^verbatim>\<open>startBrowser\<close> awaits it. The result
  is \<open>None\<close> when the awaited call has not settled after them, else how \<^verbatim>\<open>startBrowser\<close>
  settles: \<open>Inr None\<close> is \<^verbatim>\<open>return worker\<close> with \<^verbatim>\<open>worker\<close> still \<^verbatim>\<open>null\<close>. The second
  component lists the attempts made, the third is the system left behind.
\<close>

function startBrowser_from ::
  "connector \<Rightarrow> startArgs \<Rightarrow> (nat \<Rightarrow> string \<times> event list) \<Rightarrow> int \<Rightarrow> system \<Rightarrow> nat \<Rightarrow> error option
   \<Rightarrow> (error + worker option) option \<times> nat list \<times> system" where
  "startBrowser_from this args script maxAttepts s attempt error =
     (if int attempt < maxAttepts then
        (let j = length (attempts s);
             s' = run this (u_startBrowser this (fst (script attempt)) args s) (snd (script attempt))
         in case stage (attempts s' ! j) of
              Returned w \<Rightarrow> (Some (Inr (Some w)), [j], s')
            | Threw err \<Rightarrow>
                (let (r, js, s'') = startBrowser_from this args script maxAttepts s' (Suc attempt) (Some err)
                 in (r, j # js, s''))
            | _ \<Rightarrow> (None, [j], s'))
      else
        (case error of
           Some err \<Rightarrow>
             (Some (Inl (UnableToStart (case name (browserSettings args) of None \<Rightarrow> ''undefined'' | Some n \<Rightarrow> n) err)),
              [], s)
         | None \<Rightarrow> (Some (Inr None), [], s)))"
  by pat_completeness auto
termination
  by (relation "measure (\<lambda>(this, args, script, mx, s, a, e). nat (mx - int a))") auto

text \<open>\<^verbatim>\<open>startBrowser(browserSettings, url, { jobName, build }, { maxAttepts, openingTimeout,
  workingTimeout })\<close>: the two defaults, then the loop from \<^verbatim>\<open>attempt = 0\<close>,
  \<^verbatim>\<open>error = null\<close>.\<close>

definition startBrowser ::
  "connector \<Rightarrow> startArgs \<Rightarrow> int option \<Rightarrow> (nat \<Rightarrow> string \<times> event list) \<Rightarrow> system
   \<Rightarrow> (error + worker option) option \<times> nat list \<times> system" where
  "startBrowser this args maxAttepts script s =
     (let maxAttepts' = or_int maxAttepts DEFAULT_BROWSER_OPENING_MAX_ATTEMPT;
          openingTimeout' = or_int (openingTimeout args) DEFAULT_BROWSER_OPENING_TIMEOUT
      in startBrowser_from this (args\<lparr>openingTimeout := Some openingTimeout'\<rparr>) script maxAttepts' s 0 None)"


section \<open>Predicates used by the properties\<close>

text \<open>A poll answer that is not a running worker: an error, or another status.\<close>

definition not_running :: "string + worker \<Rightarrow> bool" where
  "not_running answer = (case answer of Inl err \<Rightarrow> True | Inr w \<Rightarrow> status w \<noteq> ''running'')"

text \<open>A poll where both queries succeed and the free count is below \<open>machineCount\<close>.\<close>

definition short :: "int \<Rightarrow> poll \<Rightarrow> bool" where
  "short machineCount p =
     (case p of
        (Inr st, Inr ws) \<Rightarrow> sessions_limit st - int (length ws) < machineCount
      | _ \<Rightarrow> False)"

text \<open>An event that delivers a notification with the id \<open>ident\<close>: an \<^verbatim>\<open>emit\<close> with that
  argument under any event name, or a request the route matches with that path.\<close>

definition carries :: "string \<Rightarrow> event \<Rightarrow> bool" where
  "carries ident e =
     (case e of
        Emit event ident' \<Rightarrow> ident' = ident
      | HttpRequest req \<Rightarrow> match_route req = Some ident
      | _ \<Rightarrow> False)"

definition unconfirmed :: "string \<Rightarrow> attempt \<Rightarrow> bool" where
  "unconfirmed ident a = (browserId a = ident \<and> waitForUrlOpened a \<noteq> Resolved)"

definition returned :: "attempt \<Rightarrow> bool" where
  "returned a = (case stage a of Returned w \<Rightarrow> True | _ \<Rightarrow> False)"

definition sound :: "attempt \<Rightarrow> bool" where
  "sound a = (if returned a then waitForUrlOpened a = Resolved else True)"

definition is_create :: "effect \<Rightarrow> bool" where
  "is_create e = (case e of CreateWorker j st \<Rightarrow> True | _ \<Rightarrow> False)"

text \<open>\<open>s'\<close> continues the trace of \<open>s\<close> without a create request.\<close>

definition quiet :: "system \<Rightarrow> system \<Rightarrow> bool" where
  "quiet s s' = (\<exists>ext. trace s' = trace s @ ext \<and> list_all (\<lambda>e. \<not> is_create e) ext)"

definition listener_first :: "effect list \<Rightarrow> bool" where
  "listener_first tr =
     (\<forall>i j st. i < length tr \<and> tr ! i = CreateWorker j st
        \<longrightarrow> (\<exists>i'<i. tr ! i' = AddListener ''browser-opened'' j))"

text \<open>Every listener in the registry is on \<open>''browser-opened''\<close>.\<close>

definition tuned :: "system \<Rightarrow> bool" where
  "tuned s = list_all (\<lambda>l. fst l = ''browser-opened'') (listeners s)"

text \<open>An attempt that waits for \<open>waitForUrlOpened\<close> with neither its timer nor a listener
  left to settle it.\<close>

definition orphaned :: "nat \<Rightarrow> system \<Rightarrow> bool" where
  "orphaned j s =
     (j < length (attempts s)
      \<and> stage (attempts s ! j) = AwaitUrlOpened
      \<and> waitForUrlOpened (attempts s ! j) = Pending
      \<and> timeoutId (attempts s ! j) \<noteq> Armed
      \<and> timeoutId (attempts s ! j) \<noteq> Stopping
      \<and> j \<notin> snd ` set (listeners s))"

text \<open>A create request of one of the attempts \<open>js\<close>; and: the trace holds exactly one
  create request for each attempt made so far, none for any other number.\<close>

definition created_by :: "nat list \<Rightarrow> effect \<Rightarrow> bool" where
  "created_by js e = (case e of CreateWorker j st \<Rightarrow> j \<in> set js | _ \<Rightarrow> False)"

definition one_create_each :: "system \<Rightarrow> bool" where
  "one_create_each s =
     (\<forall>j. length (filter (created_by [j]) (trace s)) = (if j < length (attempts s) then 1 else 0))"

text \<open>Every attempt whose timer is armed has its listener in the registry and its promise
  pending.\<close>

definition armed_waits :: "system \<Rightarrow> bool" where
  "armed_waits s =
     (\<forall>j. if j < length (attempts s) \<and> timeoutId (attempts s ! j) = Armed
          then (''browser-opened'', j) \<in> set (listeners s) \<and> waitForUrlOpened (attempts s ! j) = Pending
          else True)"

section \<open>Concrete inputs\<close>

text \<open>The addresses of the examples hold only letters, digits and the characters
  \<^verbatim>\<open>: / .\<close>, none of which \<^verbatim>\<open>encodeUrl\<close> escapes: for them the encoder returns its
  argument.\<close>

definition as_it_is :: "string \<Rightarrow> string" where
  "as_it_is u = u"

definition example_connector :: connector where
  "example_connector =
     \<lparr> hostname = ''localhost'', hubPort = 1000, tunnelIdentifier = 1, encodeUrl = as_it_is \<rparr>"

definition example_args :: startArgs where
  "example_args =
     \<lparr> browserSettings = \<lparr> os = ''Windows'', osVersion = ''10'', name = Some ''chrome'',
                            version = None, device = None, realMobile = None \<rparr>,
       url = ''http://example.com'', jobName = None, build = None, workingTimeout = None,
       openingTimeout = Some 1000 \<rparr>"

text \<open>A farm where every worker is running at the first poll, and one where none ever is.\<close>

definition running_farm :: "string \<Rightarrow> nat \<Rightarrow> string + worker" where
  "running_farm wid k =
     Inr \<lparr> worker_id = wid, status = ''running'', browser_url = ''http://farm/session'' \<rparr>"

definition queued_farm :: "string \<Rightarrow> nat \<Rightarrow> string + worker" where
  "queued_farm wid k =
     Inr \<lparr> worker_id = wid, status = ''queue'', browser_url = ''http://farm/session'' \<rparr>"

text \<open>The request the remote browser sends first: \<^verbatim>\<open>GET /<ident>?url=http://example.com\<close>.\<close>

definition callback_request :: "string \<Rightarrow> request" where
  "callback_request ident =
     \<lparr> http_method = ''GET'', path = [ident], query_url = Some ''http://example.com'',
       referrer = None \<rparr>"





text \<open>One attempt: the worker is created and running, then the browser's request reaches the
  hub while the timer is still armed.\<close>

definition lost_wakeup_events :: "event list" where
  "lost_wakeup_events =
     [StartAttempt ''abc123'' example_args,
      CreateWorkerAnswer 0 (Inr ''w1''),
      GetWorkerAnswer 0 (running_farm ''w1'' 0),
      HttpRequest (callback_request ''abc123'')]"

text \<open>The same with an \<^verbatim>\<open>emit\<close> of \<^verbatim>\<open>'browser-opened'\<close> in place of the request.\<close>

definition direct_emit_events :: "event list" where
  "direct_emit_events =
     [StartAttempt ''abc123'' example_args,
      CreateWorkerAnswer 0 (Inr ''w1''),
      GetWorkerAnswer 0 (running_farm ''w1'' 0),
      Emit ''browser-opened'' ''abc123'']"

text \<open>One attempt whose timer fires after the worker was created and before \<^verbatim>\<open>_getWorker\<close>
  has returned it; no notification arrives.\<close>

definition early_timeout_events :: "event list" where
  "early_timeout_events =
     [StartAttempt ''abc123'' example_args,
      CreateWorkerAnswer 0 (Inr ''w1''),
      TimeoutFires 0,
      GetWorkerAnswer 0 (running_farm ''w1'' 0)]"

text \<open>Two attempts in flight, ids \<open>''A''\<close> and \<open>''B''\<close>.\<close>

definition two_waiting :: system where
  "two_waiting =
     run example_connector init
       [StartAttempt ''A'' example_args, StartAttempt ''B'' example_args,
        CreateWorkerAnswer 0 (Inr ''w1''), CreateWorkerAnswer 1 (Inr ''w2''),
        GetWorkerAnswer 0 (running_farm ''w1'' 0), GetWorkerAnswer 1 (running_farm ''w2'' 0)]"

definition notify_A :: "event list" where
  "notify_A = [Emit ''browser-opened'' ''A'', HttpRequest (callback_request ''A'')]"

text \<open>A script where every create request is refused, and one where the first attempt times
  out after its worker is running and the second is notified.\<close>

definition create_fails :: "nat \<Rightarrow> string \<times> event list" where
  "create_fails k = (''id'' @ replicate k (CHR ''x''), [CreateWorkerAnswer k (Inl ''503'')])"

definition retry_script :: "nat \<Rightarrow> string \<times> event list" where
  "retry_script k =
     (if k = 0 then
        (''id0'', [CreateWorkerAnswer 0 (Inr ''w0''), GetWorkerAnswer 0 (running_farm ''w0'' 0),
                   TimeoutFires 0, StopBrowserAnswer 0 (Inr 5)])
      else
        (''id1'', [CreateWorkerAnswer 1 (Inr ''w1''), GetWorkerAnswer 1 (running_farm ''w1'' 0),
                   Emit ''browser-opened'' ''id1'']))"

text \<open>Farms for the admission check: quota 5 with 4 active workers at every poll; quota 5
  with none; quota 5 with 4 active at the first poll and 2 from the second on; and one whose
  worker listing fails.\<close>

definition some_worker :: worker where
  "some_worker = \<lparr> worker_id = ''w'', status = ''running'', browser_url = ''http://farm/session'' \<rparr>"

definition busy_farm :: "nat \<Rightarrow> poll" where
  "busy_farm k = (Inr \<lparr> sessions_limit = 5 \<rparr>, Inr (replicate 4 some_worker))"

definition idle_farm :: "nat \<Rightarrow> poll" where
  "idle_farm k = (Inr \<lparr> sessions_limit = 5 \<rparr>, Inr [])"

definition draining_farm :: "nat \<Rightarrow> poll" where
  "draining_farm k =
     (Inr \<lparr> sessions_limit = 5 \<rparr>, Inr (replicate (if k = 0 then 4 else 2) some_worker))"

definition listing_down :: "nat \<Rightarrow> poll" where
  "listing_down k = (Inr \<lparr> sessions_limit = 5 \<rparr>, Inl ''ECONNRESET'')"

declare startBrowser_from.simps [simp del]
declare waitForFreeMachines_from.simps [simp del]
declare u_getWorker_from.simps [simp del]

section \<open>Lemmas: admission and polling\<close>

lemma u_getWorker_from_exhausted:
  "(\<forall>k. n \<le> k \<and> k \<le> maxAttempts \<longrightarrow> not_running (env wid k)) \<Longrightarrow>
   u_getWorker_from env wid n =
     (Inr None, concat (replicate (Suc maxAttempts - n) (GetWorker wid # wait requestTimeout)))"
proof (induction env wid n rule: u_getWorker_from.induct)
  case (1 env wid n)
  show ?case
  proof (cases "n \<le> maxAttempts")
    case False
    then show ?thesis by (subst u_getWorker_from.simps) simp
  next
    case True
    from 1(3) True have nr: "not_running (env wid n)" by simp
    have rest: "\<forall>k. Suc n \<le> k \<and> k \<le> maxAttempts \<longrightarrow> not_running (env wid k)"
      using 1(3) by simp
    have len: "Suc maxAttempts - n = Suc (Suc maxAttempts - Suc n)"
      using True by simp
    have step: "u_getWorker_from env wid n =
        (let (r, rest) = u_getWorker_from env wid (Suc n)
         in (r, GetWorker wid # wait requestTimeout @ rest))"
      using True nr
      by (subst u_getWorker_from.simps)
         (auto simp: not_running_def getWorker_def split: sum.splits option.splits)
    have ih: "u_getWorker_from env wid (Suc n) =
        (Inr None, concat (replicate (Suc maxAttempts - Suc n) (GetWorker wid # wait requestTimeout)))"
    proof (cases "getWorker (env wid n)")
      case None
      from 1(1)[OF True None rest] show ?thesis .
    next
      case (Some w)
      with nr have st: "status w \<noteq> ''running''"
        by (auto simp: not_running_def getWorker_def split: sum.splits)
      from 1(2)[OF True Some st rest] show ?thesis .
    qed
    show ?thesis
      unfolding step ih len by simp
  qed
qed

lemma waitForFreeMachines_first_check:
  "0 < maxAttemptCount \<Longrightarrow> env 0 = (Inr st, Inr ws) \<Longrightarrow>
   machineCount \<le> sessions_limit st - int (length ws) \<Longrightarrow>
   waitForFreeMachines env machineCount requestInterval maxAttemptCount = (Inr (), [GetApiStatus, GetWorkers])"
  by (simp add: waitForFreeMachines_def waitForFreeMachines_from.simps [of _ _ _ _ 0]
        u_getFreeMachineCount_def u_getMaxAvailableMachines_def u_getWorkers_def)

lemma waitForFreeMachines_exhausted:
  "(\<forall>k. n \<le> k \<and> int k < maxAttemptCount \<longrightarrow> short machineCount (env k)) \<Longrightarrow>
   fst (waitForFreeMachines_from env machineCount requestInterval maxAttemptCount n) = Inl (Error ''There are no free machines'')"
proof (induction env machineCount requestInterval maxAttemptCount n rule: waitForFreeMachines_from.induct)
  case (1 env machineCount requestInterval maxAttemptCount n)
  show ?case
  proof (cases "int n < maxAttemptCount")
    case False
    then show ?thesis by (subst waitForFreeMachines_from.simps) simp
  next
    case True
    with 1(2) have "short machineCount (env n)" by simp
    then obtain st ws where e: "env n = (Inr st, Inr ws)"
      and lt: "sessions_limit st - int (length ws) < machineCount"
      by (auto simp: short_def split: prod.splits sum.splits)
    have gf: "u_getFreeMachineCount (env n) = (Inr (sessions_limit st - int (length ws)), [GetApiStatus, GetWorkers])"
      by (simp add: e u_getFreeMachineCount_def u_getMaxAvailableMachines_def u_getWorkers_def)
    have rest: "\<forall>k. Suc n \<le> k \<and> int k < maxAttemptCount \<longrightarrow> short machineCount (env k)"
      using 1(2) by simp
    have "fst (waitForFreeMachines_from env machineCount requestInterval maxAttemptCount (Suc n)) = Inl (Error ''There are no free machines'')"
      using 1(1)[OF True gf[symmetric] refl _ rest] lt by simp
    then show ?thesis using True gf lt
      by (subst waitForFreeMachines_from.simps) (simp add: split_beta)
  qed
qed

section \<open>Lemmas: what a step keeps of one attempt\<close>

lemma after_await_fields [simp]:
  "browserId (fst (after_await a)) = browserId a"
  "waitForUrlOpened (fst (after_await a)) = waitForUrlOpened a"
  "timeoutId (fst (after_await a)) = timeoutId a"
  "worker (fst (after_await a)) = worker a"
  by (simp_all add: after_await_def split: promise.splits option.splits)

lemma after_await_sound:
  "sound a \<Longrightarrow> sound (fst (after_await a))"
  by (auto simp: after_await_def sound_def returned_def split: promise.splits option.splits stage.splits if_splits)

lemma sound_stage_update:
  "(\<forall>w. st \<noteq> Returned w) \<Longrightarrow> sound (a\<lparr>stage := st\<rparr>)"
  by (auto simp: sound_def returned_def split: stage.splits)

lemma sound_timer_update [simp]:
  "sound (a\<lparr>timeoutId := t\<rparr>) = sound a"
  by (simp add: sound_def returned_def)

lemma sound_worker_update [simp]:
  "sound (a\<lparr>worker := w\<rparr>) = sound a"
  by (simp add: sound_def returned_def)

lemma sound_resolve:
  "sound a \<Longrightarrow> sound (a\<lparr>waitForUrlOpened := resolve (waitForUrlOpened a)\<rparr>)"
  by (auto simp: sound_def returned_def resolve_def)

lemma sound_reject:
  "sound a \<Longrightarrow> sound (a\<lparr>waitForUrlOpened := reject e (waitForUrlOpened a)\<rparr>)"
  by (auto simp: sound_def returned_def reject_def)

lemma unconfirmed_after_await [simp]:
  "unconfirmed ident (fst (after_await a)) = unconfirmed ident a"
  by (simp add: unconfirmed_def)

lemma unconfirmed_updates [simp]:
  "unconfirmed ident (a\<lparr>stage := st\<rparr>) = unconfirmed ident a"
  "unconfirmed ident (a\<lparr>timeoutId := t\<rparr>) = unconfirmed ident a"
  "unconfirmed ident (a\<lparr>worker := w\<rparr>) = unconfirmed ident a"
  by (simp_all add: unconfirmed_def)

lemma unconfirmed_reject:
  "unconfirmed ident a \<Longrightarrow> unconfirmed ident (a\<lparr>waitForUrlOpened := reject e (waitForUrlOpened a)\<rparr>)"
  by (auto simp: unconfirmed_def reject_def)

text \<open>A property of one attempt that each completion keeps.\<close>

lemma u_getWorker_next_keeps:
  assumes "j < length (attempts s)" "P (attempts s ! j)"
    and "\<And>a st. P a \<Longrightarrow> (\<forall>w. st \<noteq> Returned w) \<Longrightarrow> P (a\<lparr>stage := st\<rparr>)"
    and "\<And>a w. P a \<Longrightarrow> P (a\<lparr>worker := w\<rparr>)"
    and "\<And>a. P a \<Longrightarrow> P (fst (after_await a))"
  shows "j < length (attempts (u_getWorker_next k wid n s)) \<and> P (attempts (u_getWorker_next k wid n s) ! j)"
proof (cases "k = j")
  case False
  with assms(1,2) show ?thesis
    by (auto simp: u_getWorker_next_def Let_def split_beta)
next
  case True
  have "P (fst (after_await ((attempts s ! j)\<lparr>worker := None, stage := AwaitUrlOpened\<rparr>)))"
    using assms(2-5) by simp
  moreover have "P ((attempts s ! j)\<lparr>stage := AwaitGetWorker wid n\<rparr>)"
    using assms(2,3) by simp
  ultimately show ?thesis using True assms(1)
    by (auto simp: u_getWorker_next_def Let_def split_beta)
qed

lemma createWorker_answer_keeps:
  assumes "j < length (attempts s)" "P (attempts s ! j)"
    and "\<And>a st. P a \<Longrightarrow> (\<forall>w. st \<noteq> Returned w) \<Longrightarrow> P (a\<lparr>stage := st\<rparr>)"
    and "\<And>a w. P a \<Longrightarrow> P (a\<lparr>worker := w\<rparr>)"
    and "\<And>a. P a \<Longrightarrow> P (fst (after_await a))"
  shows "j < length (attempts (createWorker_answer k answer s)) \<and> P (attempts (createWorker_answer k answer s) ! j)"
proof (cases "k < length (attempts s) \<and> stage (attempts s ! k) = AwaitCreateWorker")
  case False
  then have "createWorker_answer k answer s = s"
    by (auto simp: createWorker_answer_def)
  with assms(1,2) show ?thesis by simp
next
  case True
  show ?thesis
  proof (cases answer)
    case (Inl err)
    have "P ((attempts s ! j)\<lparr>stage := Threw (ApiError err)\<rparr>)"
      using assms(2,3) by simp
    with True Inl assms(1,2) show ?thesis
      by (cases "k = j") (simp_all add: createWorker_answer_def)
  next
    case (Inr wid)
    have eq: "createWorker_answer k answer s = u_getWorker_next k wid 0 s"
      using True Inr by (simp add: createWorker_answer_def)
    show ?thesis
      unfolding eq
      by (rule u_getWorker_next_keeps[where P = P, OF assms(1,2)]) (fact assms(3-5))+
  qed
qed

lemma getWorker_answer_keeps:
  assumes "j < length (attempts s)" "P (attempts s ! j)"
    and "\<And>a st. P a \<Longrightarrow> (\<forall>w. st \<noteq> Returned w) \<Longrightarrow> P (a\<lparr>stage := st\<rparr>)"
    and "\<And>a w. P a \<Longrightarrow> P (a\<lparr>worker := w\<rparr>)"
    and "\<And>a. P a \<Longrightarrow> P (fst (after_await a))"
  shows "j < length (attempts (getWorker_answer k answer s)) \<and> P (attempts (getWorker_answer k answer s) ! j)"
proof (cases "k = j")
  case False
  with assms(1,2) show ?thesis
    by (auto simp: getWorker_answer_def Let_def split_beta split: stage.splits option.splits)
next
  case True
  have "P (fst (after_await ((attempts s ! j)\<lparr>worker := w, stage := AwaitUrlOpened\<rparr>)))" for w
    using assms(2-5) by simp
  moreover have "P ((attempts s ! j)\<lparr>stage := AwaitWait wid n\<rparr>)" for wid n
    using assms(2,3) by simp
  ultimately show ?thesis using True assms(1,2)
    by (auto simp: getWorker_answer_def Let_def split_beta split: stage.splits option.splits)
qed

lemma wait_done_keeps:
  assumes "j < length (attempts s)" "P (attempts s ! j)"
    and "\<And>a st. P a \<Longrightarrow> (\<forall>w. st \<noteq> Returned w) \<Longrightarrow> P (a\<lparr>stage := st\<rparr>)"
    and "\<And>a w. P a \<Longrightarrow> P (a\<lparr>worker := w\<rparr>)"
    and "\<And>a. P a \<Longrightarrow> P (fst (after_await a))"
  shows "j < length (attempts (wait_done k s)) \<and> P (attempts (wait_done k s) ! j)"
proof (cases "k < length (attempts s) \<and> (\<exists>wid n. stage (attempts s ! k) = AwaitWait wid n)")
  case False
  then have "wait_done k s = s"
    by (auto simp: wait_done_def split: stage.splits)
  with assms(1,2) show ?thesis by simp
next
  case True
  then obtain wid n where "stage (attempts s ! k) = AwaitWait wid n" by blast
  with True have eq: "wait_done k s = u_getWorker_next k wid (Suc n) s"
    by (simp add: wait_done_def)
  show ?thesis
    unfolding eq
    by (rule u_getWorker_next_keeps[where P = P, OF assms(1,2)]) (fact assms(3-5))+
qed

lemma timeout_fires_keeps:
  assumes "j < length (attempts s)" "P (attempts s ! j)"
    and "\<And>a t. P a \<Longrightarrow> P (a\<lparr>timeoutId := t\<rparr>)"
  shows "j < length (attempts (timeout_fires k s)) \<and> P (attempts (timeout_fires k s) ! j)"
  using assms by (cases "k = j") (auto simp: timeout_fires_def Let_def split: option.splits)

lemma stopBrowser_answer_keeps:
  assumes "j < length (attempts s)" "P (attempts s ! j)"
    and "\<And>a t. P a \<Longrightarrow> P (a\<lparr>timeoutId := t\<rparr>)"
    and "\<And>a e. P a \<Longrightarrow> P (a\<lparr>waitForUrlOpened := reject e (waitForUrlOpened a)\<rparr>)"
    and "\<And>a. P a \<Longrightarrow> P (fst (after_await a))"
  shows "j < length (attempts (stopBrowser_answer k answer s)) \<and> P (attempts (stopBrowser_answer k answer s) ! j)"
proof (cases "k = j")
  case False
  with assms(1,2) show ?thesis
    by (auto simp: stopBrowser_answer_def Let_def split_beta split: sum.splits)
next
  case True
  have "P (fst (after_await ((attempts s ! j)\<lparr>timeoutId := Fired,
          waitForUrlOpened := reject e (waitForUrlOpened (attempts s ! j))\<rparr>)))" for e
  proof -
    have "P ((attempts s ! j)\<lparr>timeoutId := Fired\<rparr>)"
      using assms(2,3) by simp
    from assms(4)[OF this, of e] show ?thesis
      by (intro assms(5)) simp
  qed
  moreover have "P ((attempts s ! j)\<lparr>timeoutId := t\<rparr>)" for t
    using assms(2,3) by simp
  ultimately show ?thesis using True assms(1,2)
    by (auto simp: stopBrowser_answer_def Let_def split_beta split: sum.splits)
qed

lemma u_startBrowser_unfold:
  "u_startBrowser this b args s =
     s\<lparr>listeners := listeners s @ [(''browser-opened'', length (attempts s))],
       attempts := attempts s @
         [\<lparr> browserId = b, browserName = name (browserSettings args), worker = None,
            waitForUrlOpened = Pending, timeoutId = Armed, stage = AwaitCreateWorker \<rparr>],
       trace := trace s @ [SetTimeout (length (attempts s)) (openingTimeout args),
                           AddListener ''browser-opened'' (length (attempts s)),
                           CreateWorker (length (attempts s)) (createWorker_settings this b args)]\<rparr>"
  by (simp add: u_startBrowser_def createWorker_def new_waitForUrlOpened_def Let_def)

lemma u_startBrowser_keeps:
  assumes "j < length (attempts s)" "P (attempts s ! j)"
  shows "j < length (attempts (u_startBrowser this b args s)) \<and> P (attempts (u_startBrowser this b args s) ! j)"
  using assms by (simp add: u_startBrowser_unfold Let_def nth_append)

text \<open>The handler of another attempt, or called with another id, leaves an attempt as it is.\<close>

lemma hubHandler_other:
  assumes "j < length (attempts s)" "k \<noteq> j \<or> browserId (attempts s ! j) \<noteq> ident"
  shows "length (attempts (hubHandler k ident s)) = length (attempts s)
       \<and> attempts (hubHandler k ident s) ! j = attempts s ! j"
  using assms by (auto simp: hubHandler_def Let_def nth_list_update)

lemma hubHandler_keeps_sound:
  assumes "j < length (attempts s)" "sound (attempts s ! j)"
  shows "j < length (attempts (hubHandler k ident s)) \<and> sound (attempts (hubHandler k ident s) ! j)"
proof (cases "k = j \<and> browserId (attempts s ! j) = ident")
  case False
  with hubHandler_other[of j s k ident] assms show ?thesis by auto
next
  case True
  have "sound ((attempts s ! j)\<lparr>timeoutId := clearTimeout (timeoutId (attempts s ! j))\<rparr>)"
    using assms(2) by simp
  from sound_resolve[OF this]
  have "sound ((attempts s ! j)\<lparr>timeoutId := clearTimeout (timeoutId (attempts s ! j)),
          waitForUrlOpened := resolve (waitForUrlOpened (attempts s ! j))\<rparr>)"
    by simp
  with True assms(1) show ?thesis
    by (simp add: hubHandler_def Let_def)
qed

lemma emit_other:
  assumes "j < length (attempts s)" "browserId (attempts s ! j) \<noteq> ident"
  shows "length (attempts (emit event ident s)) = length (attempts s)
       \<and> attempts (emit event ident s) ! j = attempts s ! j"
proof -
  have "length (attempts (foldl (\<lambda>s' k. hubHandler k ident s') s ks)) = length (attempts s)
      \<and> attempts (foldl (\<lambda>s' k. hubHandler k ident s') s ks) ! j = attempts s ! j" for ks
    using assms
  proof (induction ks arbitrary: s)
    case Nil
    then show ?case by simp
  next
    case (Cons k ks)
    from hubHandler_other[of j s k ident] Cons.prems
    have h: "length (attempts (hubHandler k ident s)) = length (attempts s)"
         "attempts (hubHandler k ident s) ! j = attempts s ! j" by auto
    from Cons.IH[of "hubHandler k ident s"] h Cons.prems show ?case by simp
  qed
  then show ?thesis by (simp add: emit_def)
qed

lemma emit_keeps_sound:
  assumes "j < length (attempts s)" "sound (attempts s ! j)"
  shows "j < length (attempts (emit event ident s)) \<and> sound (attempts (emit event ident s) ! j)"
proof -
  have "j < length (attempts (foldl (\<lambda>s' k. hubHandler k ident s') s ks))
      \<and> sound (attempts (foldl (\<lambda>s' k. hubHandler k ident s') s ks) ! j)" for ks
    using assms
  proof (induction ks arbitrary: s)
    case Nil
    then show ?case by simp
  next
    case (Cons k ks)
    from hubHandler_keeps_sound[OF Cons.prems, of k ident] Cons.IH[of "hubHandler k ident s"]
    show ?case by simp
  qed
  then show ?thesis by (simp add: emit_def)
qed

text \<open>What \<open>resume\<close> keeps.\<close>

lemma resume_length [simp]: "length (attempts (resume k s)) = length (attempts s)"
  by (simp add: resume_def split_beta)

lemma resume_listeners [simp]: "listeners (resume k s) = listeners s"
  by (simp add: resume_def split_beta)

lemma resume_other: "k \<noteq> j \<Longrightarrow> attempts (resume k s) ! j = attempts s ! j"
  by (simp add: resume_def split_beta)

lemma resume_keeps:
  assumes "j < length (attempts s)" "P (attempts s ! j)"
    and "\<And>a. P a \<Longrightarrow> P (fst (after_await a))"
  shows "P (attempts (resume k s) ! j)"
proof (cases "k = j")
  case False
  with assms(2) show ?thesis by (simp add: resume_other)
next
  case True
  from assms(3)[OF assms(2)] True assms(1) show ?thesis
    by (simp add: resume_def split_beta)
qed

lemma resume_all_length [simp]: "length (attempts (resume_all ks s)) = length (attempts s)"
  unfolding resume_all_def by (induction ks arbitrary: s) simp_all

lemma resume_all_listeners [simp]: "listeners (resume_all ks s) = listeners s"
  unfolding resume_all_def by (induction ks arbitrary: s) simp_all

lemma resume_all_other: "j \<notin> set ks \<Longrightarrow> attempts (resume_all ks s) ! j = attempts s ! j"
  unfolding resume_all_def by (induction ks arbitrary: s) (simp_all add: resume_other)

lemma resume_all_keeps:
  assumes "j < length (attempts s)" "P (attempts s ! j)"
    and "\<And>a. P a \<Longrightarrow> P (fst (after_await a))"
  shows "P (attempts (resume_all ks s) ! j)"
  using assms(1,2) unfolding resume_all_def
proof (induction ks arbitrary: s)
  case Nil
  then show ?case by simp
next
  case (Cons k ks)
  from resume_keeps[of j s P k, OF Cons.prems assms(3)] Cons.IH[of "resume k s"] Cons.prems(1)
  show ?case by simp
qed

lemma woken_ident:
  "k \<in> set (woken event ident s) \<Longrightarrow> k < length (attempts s) \<and> browserId (attempts s ! k) = ident"
  by (simp add: woken_def)

lemma woken_listens: "k \<in> set (woken event ident s) \<Longrightarrow> (event, k) \<in> set (listeners s)"
  by (auto simp: woken_def)

lemma emitted_other:
  assumes "j < length (attempts s)" "browserId (attempts s ! j) \<noteq> ident"
  shows "length (attempts (emitted event ident s)) = length (attempts s)
       \<and> attempts (emitted event ident s) ! j = attempts s ! j"
proof -
  from assms(2) woken_ident[of j event ident s] have "j \<notin> set (woken event ident s)" by blast
  from resume_all_other[OF this] emit_other[OF assms, of event] show ?thesis
    by (simp add: emitted_def)
qed

lemma emitted_keeps_sound:
  assumes "j < length (attempts s)" "sound (attempts s ! j)"
  shows "j < length (attempts (emitted event ident s)) \<and> sound (attempts (emitted event ident s) ! j)"
proof -
  from emit_keeps_sound[OF assms, of event ident]
  have j: "j < length (attempts (emit event ident s))" and s: "sound (attempts (emit event ident s) ! j)"
    by simp_all
  from resume_all_keeps[of j "emit event ident s" sound "woken event ident s", OF j s after_await_sound] j
  show ?thesis by (simp add: emitted_def)
qed

lemma hub_request_eq:
  "hub_request enc req s =
     (case match_route req of
        None \<Rightarrow> s\<lparr>trace := trace s @ [Respond (snd (u_setupRoutes enc req))]\<rparr>
      | Some ident \<Rightarrow>
          resume_all (woken ''open'' ident s)
            ((emit ''open'' ident s)
               \<lparr>trace := trace (emit ''open'' ident s) @ [Respond (redirect enc req (query_url req))]\<rparr>))"
  by (simp add: hub_request_def u_setupRoutes_def Let_def resume_all_def split: option.splits)

lemma hub_request_other:
  assumes "j < length (attempts s)" "match_route req \<noteq> Some (browserId (attempts s ! j))"
  shows "length (attempts (hub_request enc req s)) = length (attempts s)
       \<and> attempts (hub_request enc req s) ! j = attempts s ! j"
proof (cases "match_route req")
  case None
  then show ?thesis by (simp add: hub_request_eq)
next
  case (Some ident)
  with assms(2) have ne: "browserId (attempts s ! j) \<noteq> ident" by auto
  with woken_ident[of j "''open''" ident s] have "j \<notin> set (woken ''open'' ident s)" by blast
  from resume_all_other[OF this] emit_other[OF assms(1) ne, of "''open''"] Some show ?thesis
    by (simp add: hub_request_eq)
qed

lemma hub_request_keeps_sound:
  assumes "j < length (attempts s)" "sound (attempts s ! j)"
  shows "j < length (attempts (hub_request enc req s)) \<and> sound (attempts (hub_request enc req s) ! j)"
proof (cases "match_route req")
  case None
  with assms show ?thesis by (simp add: hub_request_eq)
next
  case (Some ident)
  let ?s' = "(emit ''open'' ident s)
               \<lparr>trace := trace (emit ''open'' ident s) @ [Respond (redirect enc req (query_url req))]\<rparr>"
  from emit_keeps_sound[OF assms, of "''open''" ident]
  have j: "j < length (attempts ?s')" and s: "sound (attempts ?s' ! j)"
    by simp_all
  from resume_all_keeps[of j ?s' sound "woken ''open'' ident s", OF j s after_await_sound] j Some
  show ?thesis by (simp add: hub_request_eq)
qed

lemma step_keeps_sound:
  assumes "j < length (attempts s)" "sound (attempts s ! j)"
  shows "j < length (attempts (step this s e)) \<and> sound (attempts (step this s e) ! j)"
proof (cases e)
  case (StartAttempt b args)
  with u_startBrowser_keeps[of j s sound this b args] assms show ?thesis by simp
next
  case (HttpRequest req)
  with hub_request_keeps_sound[OF assms] show ?thesis by simp
next
  case (Emit event ident)
  with emitted_keeps_sound[OF assms] show ?thesis by simp
next
  case (CreateWorkerAnswer k answer)
  with createWorker_answer_keeps[of j s sound k answer] assms show ?thesis
    by (simp add: sound_stage_update after_await_sound)
next
  case (GetWorkerAnswer k answer)
  with getWorker_answer_keeps[of j s sound k answer] assms show ?thesis
    by (simp add: sound_stage_update after_await_sound)
next
  case (WaitDone k)
  with wait_done_keeps[of j s sound k] assms show ?thesis
    by (simp add: sound_stage_update after_await_sound)
next
  case (TimeoutFires k)
  with timeout_fires_keeps[of j s sound k] assms show ?thesis by simp
next
  case (StopBrowserAnswer k answer)
  with stopBrowser_answer_keeps[of j s sound k answer] assms show ?thesis
    by (simp add: sound_reject after_await_sound)
qed

lemma step_keeps_unconfirmed:
  assumes "j < length (attempts s)" "unconfirmed ident (attempts s ! j)" "\<not> carries ident e"
  shows "j < length (attempts (step this s e)) \<and> unconfirmed ident (attempts (step this s e) ! j)"
proof (cases e)
  case (StartAttempt b args)
  with u_startBrowser_keeps[of j s "unconfirmed ident" this b args] assms show ?thesis by simp
next
  case (HttpRequest req)
  from assms(2,3) HttpRequest have "match_route req \<noteq> Some (browserId (attempts s ! j))"
    by (auto simp: carries_def unconfirmed_def)
  from hub_request_other[OF assms(1) this, of "encodeUrl this"] HttpRequest assms show ?thesis
    by simp
next
  case (Emit event ident')
  with assms(3) have "ident' \<noteq> ident" by (simp add: carries_def)
  with assms(2) have "browserId (attempts s ! j) \<noteq> ident'" by (auto simp: unconfirmed_def)
  from emitted_other[OF assms(1) this, of event] Emit assms show ?thesis by simp
next
  case (CreateWorkerAnswer k answer)
  with createWorker_answer_keeps[of j s "unconfirmed ident" k answer] assms show ?thesis by simp
next
  case (GetWorkerAnswer k answer)
  with getWorker_answer_keeps[of j s "unconfirmed ident" k answer] assms show ?thesis by simp
next
  case (WaitDone k)
  with wait_done_keeps[of j s "unconfirmed ident" k] assms show ?thesis by simp
next
  case (TimeoutFires k)
  with timeout_fires_keeps[of j s "unconfirmed ident" k] assms show ?thesis by simp
next
  case (StopBrowserAnswer k answer)
  with stopBrowser_answer_keeps[of j s "unconfirmed ident" k answer] assms show ?thesis
    by (simp add: unconfirmed_reject)
qed

lemma run_keeps_sound:
  "j < length (attempts s) \<Longrightarrow> sound (attempts s ! j) \<Longrightarrow>
   j < length (attempts (run this s evs)) \<and> sound (attempts (run this s evs) ! j)"
proof (induction evs arbitrary: s)
  case Nil
  then show ?case by (simp add: run_def)
next
  case (Cons e evs)
  from step_keeps_sound[OF Cons.prems, of this e] Cons.IH[of "step this s e"]
  show ?case by (simp add: run_def)
qed

lemma run_keeps_unconfirmed:
  "j < length (attempts s) \<Longrightarrow> unconfirmed ident (attempts s ! j) \<Longrightarrow>
   list_all (\<lambda>e. \<not> carries ident e) evs \<Longrightarrow>
   j < length (attempts (run this s evs)) \<and> unconfirmed ident (attempts (run this s evs) ! j)"
proof (induction evs arbitrary: s)
  case Nil
  then show ?case by (simp add: run_def)
next
  case (Cons e evs)
  from Cons.prems(3) have e: "\<not> carries ident e" and evs: "list_all (\<lambda>e. \<not> carries ident e) evs"
    by simp_all
  from step_keeps_unconfirmed[OF Cons.prems(1,2) e, of this] Cons.IH[of "step this s e"] evs
  show ?case by (simp add: run_def)
qed

section \<open>Lemmas: the retry loop\<close>

lemma u_startBrowser_new:
  "length (attempts (u_startBrowser this b args s)) = Suc (length (attempts s))"
  "unconfirmed b (attempts (u_startBrowser this b args s) ! length (attempts s))"
  "sound (attempts (u_startBrowser this b args s) ! length (attempts s))"
  by (simp_all add: u_startBrowser_unfold Let_def unconfirmed_def sound_def returned_def)

lemma returned_needs_notification:
  assumes "stage (attempts (run this (u_startBrowser this b args s) evs) ! length (attempts s)) = Returned w"
  shows "waitForUrlOpened (attempts (run this (u_startBrowser this b args s) evs) ! length (attempts s)) = Resolved
       \<and> list_ex (carries b) evs"
proof -
  let ?j = "length (attempts s)" and ?s1 = "u_startBrowser this b args s"
  have j: "?j < length (attempts ?s1)" by (simp add: u_startBrowser_new)
  from run_keeps_sound[OF j u_startBrowser_new(3), of this evs] assms
  have res: "waitForUrlOpened (attempts (run this ?s1 evs) ! ?j) = Resolved"
    by (simp add: sound_def returned_def)
  have "list_ex (carries b) evs"
  proof (rule ccontr)
    assume "\<not> list_ex (carries b) evs"
    then have "list_all (\<lambda>e. \<not> carries b e) evs"
      by (simp add: list_all_iff list_ex_iff)
    from run_keeps_unconfirmed[OF j u_startBrowser_new(2) this, of this] res
    show False by (simp add: unconfirmed_def)
  qed
  with res show ?thesis by simp
qed

lemma startBrowser_from_bound:
  "length (fst (snd (startBrowser_from this args script mx s attempt error))) \<le> nat (mx - int attempt)"
proof (induction this args script mx s attempt error rule: startBrowser_from.induct)
  case (1 this args script mx s attempt error)
  show ?case
  proof (cases "int attempt < mx")
    case False
    then show ?thesis
      by (subst startBrowser_from.simps) (simp split: option.splits)
  next
    case True
    let ?s' = "run this (u_startBrowser this (fst (script attempt)) args s) (snd (script attempt))"
    show ?thesis
    proof (cases "stage (attempts ?s' ! length (attempts s))")
      case (Threw err)
      from 1[OF True refl refl Threw] True Threw show ?thesis
        by (subst startBrowser_from.simps) (simp add: Let_def split_beta)
    qed (use True in \<open>subst startBrowser_from.simps, simp add: Let_def\<close>)+
  qed
qed

lemma startBrowser_from_confirmed:
  assumes "fst (startBrowser_from this args script mx s attempt error) = Some (Inr (Some w))"
  shows "fst (snd (startBrowser_from this args script mx s attempt error)) \<noteq> []
       \<and> waitForUrlOpened
           (attempts (snd (snd (startBrowser_from this args script mx s attempt error)))
              ! last (fst (snd (startBrowser_from this args script mx s attempt error)))) = Resolved
       \<and> list_ex
           (carries (fst (script (attempt + length (fst (snd (startBrowser_from this args script mx s attempt error))) - 1))))
           (snd (script (attempt + length (fst (snd (startBrowser_from this args script mx s attempt error))) - 1)))"
  using assms
proof (induction this args script mx s attempt error rule: startBrowser_from.induct)
  case (1 this args script mx s attempt error)
  show ?case
  proof (cases "int attempt < mx")
    case False
    with 1(2) show ?thesis
      by (subst (asm) startBrowser_from.simps) (simp split: option.splits)
  next
    case True
    let ?s' = "run this (u_startBrowser this (fst (script attempt)) args s) (snd (script attempt))"
    let ?rec = "startBrowser_from this args script mx ?s'"
    show ?thesis
    proof (cases "stage (attempts ?s' ! length (attempts s))")
      case (Returned w')
      have eq: "startBrowser_from this args script mx s attempt error
                 = (Some (Inr (Some w')), [length (attempts s)], ?s')"
        using True Returned by (subst startBrowser_from.simps) (simp add: Let_def)
      from returned_needs_notification[OF Returned] show ?thesis
        unfolding eq by simp
    next
      case (Threw err)
      have eq: "startBrowser_from this args script mx s attempt error
                 = (fst (?rec (Suc attempt) (Some err)),
                    length (attempts s) # fst (snd (?rec (Suc attempt) (Some err))),
                    snd (snd (?rec (Suc attempt) (Some err))))"
        using True Threw by (subst startBrowser_from.simps) (simp add: Let_def split_beta)
      from 1(2) have "fst (?rec (Suc attempt) (Some err)) = Some (Inr (Some w))"
        unfolding eq by simp
      from 1(1)[OF True refl refl Threw this] show ?thesis
        unfolding eq by simp
    qed (use True 1(2) in \<open>subst (asm) startBrowser_from.simps, simp add: Let_def\<close>)+
  qed
qed

section \<open>Lemmas: the order of the trace\<close>

lemma quiet_refl: "quiet s s"
  by (simp add: quiet_def)

lemma quiet_trans: "quiet s s' \<Longrightarrow> quiet s' s'' \<Longrightarrow> quiet s s''"
  by (auto simp: quiet_def)

lemma quietI: "trace s' = trace s @ ext \<Longrightarrow> list_all (\<lambda>e. \<not> is_create e) ext \<Longrightarrow> quiet s s'"
  by (auto simp: quiet_def)

lemma after_await_quiet: "list_all (\<lambda>e. \<not> is_create e) (snd (after_await a))"
  by (simp add: after_await_def is_create_def split: promise.splits option.splits)

lemma hubHandler_quiet: "quiet s (hubHandler k ident s)"
proof (cases "k < length (attempts s) \<and> ident = browserId (attempts s ! k)")
  case False
  then show ?thesis by (auto simp: hubHandler_def Let_def quiet_refl)
next
  case True
  then show ?thesis
    by (intro quietI[where ext = "[RemoveListener ''browser-opened'' k, ClearTimeout k]"])
       (simp_all add: hubHandler_def Let_def is_create_def)
qed

lemma emit_quiet: "quiet s (emit event ident s)"
proof -
  have "quiet s (foldl (\<lambda>s' k. hubHandler k ident s') s ks)" for ks
  proof (induction ks arbitrary: s)
    case Nil
    show ?case by (simp add: quiet_refl)
  next
    case (Cons k ks)
    from quiet_trans[OF hubHandler_quiet Cons.IH] show ?case by simp
  qed
  then show ?thesis by (simp add: emit_def)
qed

lemma resume_quiet: "quiet s (resume k s)"
proof (cases "k < length (attempts s)")
  case False
  then show ?thesis by (simp add: resume_def quiet_refl)
next
  case True
  with after_await_quiet show ?thesis
    by (intro quietI[where ext = "snd (after_await (attempts s ! k))"])
       (simp_all add: resume_def split_beta)
qed

lemma resume_all_quiet: "quiet s (resume_all ks s)"
  unfolding resume_all_def
proof (induction ks arbitrary: s)
  case Nil
  show ?case by (simp add: quiet_refl)
next
  case (Cons k ks)
  from quiet_trans[OF resume_quiet Cons.IH] show ?case by simp
qed

lemma emitted_quiet: "quiet s (emitted event ident s)"
  unfolding emitted_def by (rule quiet_trans[OF emit_quiet resume_all_quiet])

lemma hub_request_quiet: "quiet s (hub_request enc req s)"
proof (cases "match_route req")
  case None
  then show ?thesis
    by (intro quietI[where ext = "[Respond (snd (u_setupRoutes enc req))]"])
       (simp_all add: hub_request_eq is_create_def)
next
  case (Some ident)
  let ?s' = "(emit ''open'' ident s)
               \<lparr>trace := trace (emit ''open'' ident s) @ [Respond (redirect enc req (query_url req))]\<rparr>"
  have "quiet (emit ''open'' ident s) ?s'"
    by (intro quietI[where ext = "[Respond (redirect enc req (query_url req))]"])
       (simp_all add: is_create_def)
  from quiet_trans[OF quiet_trans[OF emit_quiet this] resume_all_quiet] Some show ?thesis
    by (simp add: hub_request_eq)
qed

lemma u_getWorker_next_quiet: "quiet s (u_getWorker_next k wid n s)"
proof (cases "n \<le> maxAttempts")
  case True
  then show ?thesis
    by (intro quietI[where ext = "[GetWorker wid]"])
       (simp_all add: u_getWorker_next_def Let_def is_create_def)
next
  case False
  with after_await_quiet show ?thesis
    by (intro quietI[where ext = "snd (after_await ((attempts s ! k)\<lparr>worker := None, stage := AwaitUrlOpened\<rparr>))"])
       (simp_all add: u_getWorker_next_def Let_def split_beta)
qed

lemma createWorker_answer_quiet: "quiet s (createWorker_answer k answer s)"
proof (cases "k < length (attempts s) \<and> stage (attempts s ! k) = AwaitCreateWorker")
  case False
  then show ?thesis by (auto simp: createWorker_answer_def quiet_refl)
next
  case True
  show ?thesis
  proof (cases answer)
    case (Inl err)
    with True show ?thesis
      by (intro quietI[where ext = "[LogError err]"]) (simp_all add: createWorker_answer_def is_create_def)
  next
    case (Inr wid)
    with True u_getWorker_next_quiet[of s k wid 0] show ?thesis
      by (simp add: createWorker_answer_def)
  qed
qed

lemma getWorker_answer_quiet: "quiet s (getWorker_answer k answer s)"
proof (cases "k < length (attempts s)")
  case False
  then show ?thesis by (simp add: getWorker_answer_def quiet_refl)
next
  case True
  show ?thesis
  proof (cases "stage (attempts s ! k)")
    case (AwaitGetWorker wid n)
    show ?thesis
    proof (cases "\<exists>w. getWorker answer = Some w \<and> status w = ''running''")
      case False
      with True AwaitGetWorker show ?thesis
        by (intro quietI[where ext = "wait requestTimeout"])
           (auto simp: getWorker_answer_def Let_def wait_def is_create_def split: option.splits)
    next
      case running: True
      then obtain w where w: "getWorker answer = Some w" "status w = ''running''" by blast
      with True AwaitGetWorker after_await_quiet show ?thesis
        by (intro quietI[where ext = "snd (after_await ((attempts s ! k)\<lparr>worker := Some w, stage := AwaitUrlOpened\<rparr>))"])
           (simp_all add: getWorker_answer_def Let_def split_beta)
    qed
  qed (use True in \<open>simp_all add: getWorker_answer_def quiet_refl\<close>)
qed

lemma wait_done_quiet: "quiet s (wait_done k s)"
proof (cases "k < length (attempts s)")
  case False
  then show ?thesis by (simp add: wait_done_def quiet_refl)
next
  case True
  show ?thesis
  proof (cases "stage (attempts s ! k)")
    case (AwaitWait wid n)
    with True u_getWorker_next_quiet[of s k wid "Suc n"] show ?thesis
      by (simp add: wait_done_def)
  qed (use True in \<open>simp_all add: wait_done_def quiet_refl\<close>)
qed

lemma timeout_fires_quiet: "quiet s (timeout_fires k s)"
proof (cases "k < length (attempts s) \<and> timeoutId (attempts s ! k) = Armed")
  case False
  then show ?thesis by (auto simp: timeout_fires_def quiet_refl)
next
  case True
  show ?thesis
  proof (cases "worker (attempts s ! k)")
    case None
    with True show ?thesis
      by (intro quietI[where ext = "[RemoveListener ''browser-opened'' k]"])
         (simp_all add: timeout_fires_def Let_def is_create_def)
  next
    case (Some w)
    with True show ?thesis
      by (intro quietI[where ext = "[RemoveListener ''browser-opened'' k, TerminateWorker (worker_id w)]"])
         (simp_all add: timeout_fires_def Let_def is_create_def)
  qed
qed

lemma stopBrowser_answer_quiet: "quiet s (stopBrowser_answer k answer s)"
proof (cases "k < length (attempts s) \<and> timeoutId (attempts s ! k) = Stopping")
  case False
  then show ?thesis by (auto simp: stopBrowser_answer_def quiet_refl)
next
  case True
  show ?thesis
  proof (cases answer)
    case (Inl err)
    with True show ?thesis
      by (intro quietI[where ext = "[LogError err]"])
         (simp_all add: stopBrowser_answer_def Let_def is_create_def)
  next
    case (Inr time)
    with True after_await_quiet show ?thesis
      by (intro quietI[where ext = "snd (after_await ((attempts s ! k)\<lparr>timeoutId := Fired,
            waitForUrlOpened := reject (Reason ''Browser starting timeout expired'')
               (waitForUrlOpened (attempts s ! k))\<rparr>))"])
         (simp_all add: stopBrowser_answer_def Let_def split_beta)
  qed
qed

lemma listener_first_quiet:
  assumes "listener_first (trace s)" "quiet s s'"
  shows "listener_first (trace s')"
proof -
  from assms(2) obtain ext where ext: "trace s' = trace s @ ext"
    and q: "list_all (\<lambda>e. \<not> is_create e) ext"
    unfolding quiet_def by blast
  show ?thesis
    unfolding listener_first_def
  proof (intro allI impI)
    fix i j st
    assume a: "i < length (trace s') \<and> trace s' ! i = CreateWorker j st"
    have old: "i < length (trace s)"
    proof (rule ccontr)
      assume n: "\<not> i < length (trace s)"
      from a have "(trace s @ ext) ! i = CreateWorker j st" "i < length (trace s @ ext)"
        unfolding ext by simp_all
      with n have e: "ext ! (i - length (trace s)) = CreateWorker j st"
        and l: "i - length (trace s) < length ext"
        by (simp_all add: nth_append)
      from q l have "\<not> is_create (ext ! (i - length (trace s)))"
        by (simp add: list_all_length)
      with e show False by (simp add: is_create_def)
    qed
    with a have "trace s ! i = CreateWorker j st"
      unfolding ext by (simp add: nth_append)
    with assms(1) old obtain i' where i': "i' < i" "trace s ! i' = AddListener ''browser-opened'' j"
      unfolding listener_first_def by blast
    with old show "\<exists>i'<i. trace s' ! i' = AddListener ''browser-opened'' j"
      unfolding ext by (intro exI[of _ i']) (simp add: nth_append)
  qed
qed

lemma listener_first_start:
  assumes "listener_first (trace s)"
  shows "listener_first (trace (u_startBrowser this b args s))"
  unfolding listener_first_def
proof (intro allI impI)
  fix i j st
  let ?n = "length (trace s)"
  assume a: "i < length (trace (u_startBrowser this b args s))
     \<and> trace (u_startBrowser this b args s) ! i = CreateWorker j st"
  have tr: "trace (u_startBrowser this b args s) = trace s @
     [SetTimeout (length (attempts s)) (openingTimeout args),
      AddListener ''browser-opened'' (length (attempts s)),
      CreateWorker (length (attempts s)) (createWorker_settings this b args)]"
    by (simp add: u_startBrowser_unfold Let_def)
  show "\<exists>i'<i. trace (u_startBrowser this b args s) ! i' = AddListener ''browser-opened'' j"
  proof (cases "i < ?n")
    case True
    with a have "trace s ! i = CreateWorker j st"
      unfolding tr by (simp add: nth_append)
    with assms True obtain i' where i': "i' < i" "trace s ! i' = AddListener ''browser-opened'' j"
      unfolding listener_first_def by blast
    with True show ?thesis
      unfolding tr by (intro exI[of _ i']) (simp add: nth_append)
  next
    case False
    define d where "d = i - ?n"
    from a have "i < ?n + 3"
      unfolding tr by simp
    with False have d: "i = ?n + d" "d < 3"
      unfolding d_def by arith+
    from a have "[SetTimeout (length (attempts s)) (openingTimeout args),
        AddListener ''browser-opened'' (length (attempts s)),
        CreateWorker (length (attempts s)) (createWorker_settings this b args)] ! d = CreateWorker j st"
      unfolding tr d(1) by simp
    moreover from d(2) have "d = 0 \<or> d = 1 \<or> d = 2" by arith
    ultimately have "d = 2 \<and> j = length (attempts s)" by auto
    then show ?thesis
      unfolding tr d(1) by (intro exI[of _ "?n + 1"]) (simp add: nth_append)
  qed
qed

lemma step_listener_first:
  "listener_first (trace s) \<Longrightarrow> listener_first (trace (step this s e))"
  by (cases e)
     (simp_all add: listener_first_start listener_first_quiet[OF _ hub_request_quiet]
        listener_first_quiet[OF _ emitted_quiet] listener_first_quiet[OF _ createWorker_answer_quiet]
        listener_first_quiet[OF _ getWorker_answer_quiet] listener_first_quiet[OF _ wait_done_quiet]
        listener_first_quiet[OF _ timeout_fires_quiet]
        listener_first_quiet[OF _ stopBrowser_answer_quiet])

lemma run_listener_first:
  "listener_first (trace s) \<Longrightarrow> listener_first (trace (run this s evs))"
proof (induction evs arbitrary: s)
  case Nil
  then show ?case by (simp add: run_def)
next
  case (Cons e evs)
  from Cons.IH[OF step_listener_first[OF Cons.prems, of this e]] show ?case
    by (simp add: run_def)
qed

section \<open>Lemmas: the listener registry\<close>

lemma removeListener_subset: "set (removeListener l ls) \<subseteq> set ls"
  using set_remove1_subset[of l "rev ls"] by (simp add: removeListener_def)

lemma hubHandler_listeners: "set (listeners (hubHandler k ident s)) \<subseteq> set (listeners s)"
  using removeListener_subset by (auto simp: hubHandler_def Let_def split_beta)

lemma hubHandler_length [simp]: "length (attempts (hubHandler k ident s)) = length (attempts s)"
  by (simp add: hubHandler_def Let_def split_beta)

lemma handlers_fold:
  "length (attempts (foldl (\<lambda>s' k. hubHandler k ident s') s ks)) = length (attempts s)
   \<and> set (listeners (foldl (\<lambda>s' k. hubHandler k ident s') s ks)) \<subseteq> set (listeners s)
   \<and> (j \<notin> set ks \<longrightarrow> attempts (foldl (\<lambda>s' k. hubHandler k ident s') s ks) ! j = attempts s ! j)"
proof (induction ks arbitrary: s)
  case Nil
  show ?case by simp
next
  case (Cons k ks)
  have other: "k \<noteq> j \<Longrightarrow> attempts (hubHandler k ident s) ! j = attempts s ! j"
    by (simp add: hubHandler_def Let_def split_beta)
  from Cons[of "hubHandler k ident s"] hubHandler_listeners[of k ident s] other
  show ?case by auto
qed

lemma emit_length [simp]: "length (attempts (emit event ident s)) = length (attempts s)"
  using handlers_fold by (simp add: emit_def)

lemma emit_listeners: "set (listeners (emit event ident s)) \<subseteq> set (listeners s)"
  using handlers_fold by (simp add: emit_def)

lemma emit_unlistened:
  assumes "(event, j) \<notin> set (listeners s)"
  shows "attempts (emit event ident s) ! j = attempts s ! j"
proof -
  from assms have "j \<notin> set (map snd (filter (\<lambda>l. fst l = event) (listeners s)))"
    by force
  with handlers_fold[of ident s "map snd (filter (\<lambda>l. fst l = event) (listeners s))" j]
  show ?thesis by (simp add: emit_def)
qed

lemma woken_unlistened: "(event, j) \<notin> set (listeners s) \<Longrightarrow> j \<notin> set (woken event ident s)"
  using woken_listens by blast

lemma emitted_length [simp]: "length (attempts (emitted event ident s)) = length (attempts s)"
  by (simp add: emitted_def)

lemma emitted_listeners: "set (listeners (emitted event ident s)) \<subseteq> set (listeners s)"
  using emit_listeners by (simp add: emitted_def)

lemma emitted_unlistened:
  assumes "(event, j) \<notin> set (listeners s)"
  shows "attempts (emitted event ident s) ! j = attempts s ! j"
  using resume_all_other[OF woken_unlistened[OF assms]] emit_unlistened[OF assms]
  by (simp add: emitted_def)

lemma hub_request_length [simp]: "length (attempts (hub_request enc req s)) = length (attempts s)"
  by (simp add: hub_request_eq split: option.splits)

lemma hub_request_listeners: "set (listeners (hub_request enc req s)) \<subseteq> set (listeners s)"
  using emit_listeners
  by (auto simp: hub_request_eq split: option.splits)

lemma hub_request_unlistened:
  assumes "(''open'', j) \<notin> set (listeners s)"
  shows "attempts (hub_request enc req s) ! j = attempts s ! j"
  using resume_all_other[OF woken_unlistened[OF assms]] emit_unlistened[OF assms]
  by (simp add: hub_request_eq split: option.splits)

lemma tuned_subset: "tuned s \<Longrightarrow> set (listeners s') \<subseteq> set (listeners s) \<Longrightarrow> tuned s'"
  by (auto simp: tuned_def list_all_iff)

lemma step_listeners:
  "set (listeners (step this s e)) \<subseteq> insert (''browser-opened'', length (attempts s)) (set (listeners s))"
proof (cases e)
  case (StartAttempt b args)
  then show ?thesis by (auto simp: u_startBrowser_unfold Let_def)
next
  case (HttpRequest req)
  with hub_request_listeners show ?thesis by auto
next
  case (Emit event ident)
  with emitted_listeners show ?thesis by auto
next
  case (CreateWorkerAnswer k answer)
  then show ?thesis
    by (auto simp: createWorker_answer_def u_getWorker_next_def Let_def split_beta split: sum.splits)
next
  case (GetWorkerAnswer k answer)
  then show ?thesis
    by (auto simp: getWorker_answer_def Let_def split_beta split: stage.splits option.splits)
next
  case (WaitDone k)
  then show ?thesis
    by (auto simp: wait_done_def u_getWorker_next_def Let_def split_beta split: stage.splits)
next
  case (TimeoutFires k)
  with removeListener_subset show ?thesis
    by (auto simp: timeout_fires_def Let_def split: option.splits)
next
  case (StopBrowserAnswer k answer)
  then show ?thesis
    by (auto simp: stopBrowser_answer_def Let_def split_beta split: sum.splits)
qed

lemma step_tuned: "tuned s \<Longrightarrow> tuned (step this s e)"
  using step_listeners[of this s e] by (auto simp: tuned_def list_all_iff)

lemma run_tuned: "tuned s \<Longrightarrow> tuned (run this s evs)"
proof (induction evs arbitrary: s)
  case Nil
  then show ?case by (simp add: run_def)
next
  case (Cons e evs)
  from Cons.IH[OF step_tuned[OF Cons.prems, of this e]] show ?case by (simp add: run_def)
qed

lemma tuned_init: "tuned init"
  by (simp add: tuned_def init_def)

lemma emit_open_tuned: "tuned s \<Longrightarrow> emit ''open'' ident s = s"
proof -
  assume "tuned s"
  then have "filter (\<lambda>l. fst l = ''open'') (listeners s) = []"
    by (auto simp: tuned_def list_all_iff filter_empty_conv)
  then show ?thesis by (simp add: emit_def)
qed

lemma woken_open_tuned: "tuned s \<Longrightarrow> woken ''open'' ident s = []"
proof -
  assume "tuned s"
  then have "filter (\<lambda>l. fst l = ''open'') (listeners s) = []"
    by (auto simp: tuned_def list_all_iff filter_empty_conv)
  then show ?thesis by (simp add: woken_def)
qed

lemma hub_request_wakes_nobody:
  "attempts (step this (run this init evs) (HttpRequest req)) = attempts (run this init evs)"
  using emit_open_tuned[OF run_tuned[OF tuned_init, of this evs]]
    woken_open_tuned[OF run_tuned[OF tuned_init, of this evs]]
  by (simp add: hub_request_eq resume_all_def split: option.splits)

lemma step_length: "length (attempts s) \<le> length (attempts (step this s e))"
  by (cases e)
     (auto simp: u_startBrowser_unfold createWorker_answer_def getWorker_answer_def
        wait_done_def u_getWorker_next_def timeout_fires_def stopBrowser_answer_def Let_def split_beta
        split: option.splits sum.splits stage.splits)

lemma step_orphaned:
  assumes "orphaned j s"
  shows "orphaned j (step this s e) \<and> attempts (step this s e) ! j = attempts s ! j"
proof -
  from assms have j: "j < length (attempts s)"
    and nl: "\<And>event. (event, j) \<notin> set (listeners s)"
    by (force simp: orphaned_def)+
  have same: "attempts (step this s e) ! j = attempts s ! j"
  proof (cases e)
    case (StartAttempt b args)
    with j show ?thesis by (simp add: u_startBrowser_unfold Let_def nth_append)
  next
    case (HttpRequest req)
    with hub_request_unlistened[OF nl] show ?thesis by simp
  next
    case (Emit event ident)
    with emitted_unlistened[OF nl] show ?thesis by simp
  next
    case (CreateWorkerAnswer k answer)
    with assms show ?thesis
      by (cases "k = j")
         (auto simp: orphaned_def createWorker_answer_def u_getWorker_next_def Let_def split_beta
               split: sum.splits)
  next
    case (GetWorkerAnswer k answer)
    with assms show ?thesis
      by (cases "k = j")
         (auto simp: orphaned_def getWorker_answer_def Let_def split_beta
               split: option.splits stage.splits)
  next
    case (WaitDone k)
    with assms show ?thesis
      by (cases "k = j")
         (auto simp: orphaned_def wait_done_def u_getWorker_next_def Let_def split_beta
               split: stage.splits)
  next
    case (TimeoutFires k)
    with assms show ?thesis
      by (cases "k = j") (auto simp: orphaned_def timeout_fires_def Let_def split: option.splits)
  next
    case (StopBrowserAnswer k answer)
    with assms show ?thesis
      by (cases "k = j")
         (auto simp: orphaned_def stopBrowser_answer_def Let_def split_beta split: sum.splits)
  qed
  from step_listeners[of this s e] assms have "j \<notin> snd ` set (listeners (step this s e))"
    by (force simp: orphaned_def)
  with same assms step_length[of s this e] show ?thesis
    by (simp add: orphaned_def)
qed

lemma run_orphaned:
  "orphaned j s \<Longrightarrow> orphaned j (run this s evs) \<and> attempts (run this s evs) ! j = attempts s ! j"
proof (induction evs arbitrary: s)
  case Nil
  then show ?case by (simp add: run_def)
next
  case (Cons e evs)
  from step_orphaned[OF Cons.prems, of this e] Cons.IH[of "step this s e"]
  show ?case by (simp add: run_def)
qed

section \<open>Lemmas: one create request for each attempt\<close>

lemma created_by_quiet:
  "list_all (\<lambda>e. \<not> is_create e) ext \<Longrightarrow> filter (created_by js) ext = []"
  by (induction ext) (auto simp: created_by_def is_create_def split: effect.splits)

lemma created_by_Cons:
  "j \<notin> set js \<Longrightarrow>
   length (filter (created_by (j # js)) tr)
     = length (filter (created_by [j]) tr) + length (filter (created_by js) tr)"
  by (induction tr) (auto simp: created_by_def split: effect.splits)

lemma step_same_length:
  "(\<forall>b args. e \<noteq> StartAttempt b args) \<Longrightarrow> length (attempts (step this s e)) = length (attempts s)"
  by (cases e)
     (auto simp: createWorker_answer_def getWorker_answer_def
        wait_done_def u_getWorker_next_def timeout_fires_def stopBrowser_answer_def Let_def split_beta
        split: option.splits sum.splits stage.splits)

lemma step_quiet:
  "(\<forall>b args. e \<noteq> StartAttempt b args) \<Longrightarrow> quiet s (step this s e)"
  by (cases e)
     (simp_all add: hub_request_quiet emitted_quiet createWorker_answer_quiet getWorker_answer_quiet
        wait_done_quiet
        timeout_fires_quiet stopBrowser_answer_quiet)

lemma u_startBrowser_one_create_each:
  assumes "one_create_each s"
  shows "one_create_each (u_startBrowser this b args s)"
  unfolding one_create_each_def
proof
  fix j
  have tr: "trace (u_startBrowser this b args s) = trace s @
     [SetTimeout (length (attempts s)) (openingTimeout args),
      AddListener ''browser-opened'' (length (attempts s)),
      CreateWorker (length (attempts s)) (createWorker_settings this b args)]"
    and len: "length (attempts (u_startBrowser this b args s)) = Suc (length (attempts s))"
    by (simp_all add: u_startBrowser_unfold Let_def)
  from assms have old: "length (filter (created_by [j]) (trace s)) = (if j < length (attempts s) then 1 else 0)"
    unfolding one_create_each_def by blast
  show "length (filter (created_by [j]) (trace (u_startBrowser this b args s)))
          = (if j < length (attempts (u_startBrowser this b args s)) then 1 else 0)"
    unfolding tr len using old by (auto simp: created_by_def)
qed

lemma step_one_create_each:
  assumes "one_create_each s"
  shows "one_create_each (step this s e)"
proof (cases "\<exists>b args. e = StartAttempt b args")
  case True
  with u_startBrowser_one_create_each[OF assms] show ?thesis by auto
next
  case False
  then have ne: "\<forall>b args. e \<noteq> StartAttempt b args" by blast
  from step_quiet[OF ne, of s this] obtain ext where ext: "trace (step this s e) = trace s @ ext"
    and q: "list_all (\<lambda>e. \<not> is_create e) ext"
    unfolding quiet_def by blast
  show ?thesis
    unfolding one_create_each_def
  proof
    fix j
    from assms have "length (filter (created_by [j]) (trace s)) = (if j < length (attempts s) then 1 else 0)"
      unfolding one_create_each_def by blast
    then show "length (filter (created_by [j]) (trace (step this s e)))
          = (if j < length (attempts (step this s e)) then 1 else 0)"
      unfolding ext step_same_length[OF ne] by (simp add: created_by_quiet[OF q])
  qed
qed

lemma run_one_create_each:
  "one_create_each s \<Longrightarrow> one_create_each (run this s evs)"
proof (induction evs arbitrary: s)
  case Nil
  then show ?case by (simp add: run_def)
next
  case (Cons e evs)
  from Cons.IH[OF step_one_create_each[OF Cons.prems, of this e]] show ?case
    by (simp add: run_def)
qed

lemma run_length: "length (attempts s) \<le> length (attempts (run this s evs))"
proof (induction evs arbitrary: s)
  case Nil
  show ?case by (simp add: run_def)
next
  case (Cons e evs)
  from step_length[of s this e] Cons[of "step this s e"] show ?case
    by (simp add: run_def)
qed

lemma startBrowser_from_creates:
  assumes "one_create_each s"
  shows "one_create_each (snd (snd (startBrowser_from this args script mx s attempt error)))
       \<and> length (attempts s) \<le> length (attempts (snd (snd (startBrowser_from this args script mx s attempt error))))
       \<and> list_all (\<lambda>j. length (attempts s) \<le> j
                        \<and> j < length (attempts (snd (snd (startBrowser_from this args script mx s attempt error)))))
           (fst (snd (startBrowser_from this args script mx s attempt error)))
       \<and> length (filter (created_by (fst (snd (startBrowser_from this args script mx s attempt error))))
                  (trace (snd (snd (startBrowser_from this args script mx s attempt error)))))
           = length (fst (snd (startBrowser_from this args script mx s attempt error)))"
  using assms
proof (induction this args script mx s attempt error rule: startBrowser_from.induct)
  case (1 this args script mx s attempt error)
  show ?case
  proof (cases "int attempt < mx")
    case False
    have nil: "filter (created_by []) tr = []" for tr
      by (induction tr) (auto simp: created_by_def split: effect.splits)
    from False 1(2) show ?thesis
      by (subst (1 2 3 4 5 6) startBrowser_from.simps) (simp add: nil split: option.splits)
  next
    case True
    let ?j = "length (attempts s)"
    let ?s1 = "u_startBrowser this (fst (script attempt)) args s"
    let ?s' = "run this ?s1 (snd (script attempt))"
    have inv: "one_create_each ?s'"
      by (intro run_one_create_each u_startBrowser_one_create_each 1(2))
    have j: "?j < length (attempts ?s')"
      using run_length[of ?s1 this "snd (script attempt)"] by (simp add: u_startBrowser_new)
    from inv j have one: "length (filter (created_by [?j]) (trace ?s')) = 1"
      unfolding one_create_each_def by simp
    show ?thesis
    proof (cases "stage (attempts ?s' ! ?j)")
      case (Threw err)
      let ?rec = "startBrowser_from this args script mx ?s' (Suc attempt) (Some err)"
      have eq: "startBrowser_from this args script mx s attempt error
                 = (fst ?rec, ?j # fst (snd ?rec), snd (snd ?rec))"
        using True Threw by (subst startBrowser_from.simps) (simp add: Let_def split_beta)
      from 1(1)[OF True refl refl Threw inv]
      have ih1: "one_create_each (snd (snd ?rec))"
        and ih2: "length (attempts ?s') \<le> length (attempts (snd (snd ?rec)))"
        and ih3: "list_all (\<lambda>k. length (attempts ?s') \<le> k \<and> k < length (attempts (snd (snd ?rec)))) (fst (snd ?rec))"
        and ih4: "length (filter (created_by (fst (snd ?rec))) (trace (snd (snd ?rec)))) = length (fst (snd ?rec))"
        by blast+
      from ih3 j have notin: "?j \<notin> set (fst (snd ?rec))"
        by (auto simp: list_all_iff)
      from ih1 j ih2 have one': "length (filter (created_by [?j]) (trace (snd (snd ?rec)))) = 1"
        unfolding one_create_each_def by simp
      from ih3 j have ih3': "list_all (\<lambda>k. ?j \<le> k \<and> k < length (attempts (snd (snd ?rec)))) (fst (snd ?rec))"
        by (auto simp: list_all_iff)
      show ?thesis
        unfolding eq using ih1 ih2 ih3' j one' ih4 created_by_Cons[OF notin]
        by simp
    next
      case (Returned w)
      have eq: "startBrowser_from this args script mx s attempt error
                 = (Some (Inr (Some w)), [?j], ?s')"
        using True Returned by (subst startBrowser_from.simps) (simp add: Let_def)
      show ?thesis unfolding eq using inv j one by simp
    next
      case AwaitCreateWorker
      have eq: "startBrowser_from this args script mx s attempt error = (None, [?j], ?s')"
        using True AwaitCreateWorker by (subst startBrowser_from.simps) (simp add: Let_def)
      show ?thesis unfolding eq using inv j one by simp
    next
      case (AwaitGetWorker wid n)
      have eq: "startBrowser_from this args script mx s attempt error = (None, [?j], ?s')"
        using True AwaitGetWorker by (subst startBrowser_from.simps) (simp add: Let_def)
      show ?thesis unfolding eq using inv j one by simp
    next
      case (AwaitWait wid n)
      have eq: "startBrowser_from this args script mx s attempt error = (None, [?j], ?s')"
        using True AwaitWait by (subst startBrowser_from.simps) (simp add: Let_def)
      show ?thesis unfolding eq using inv j one by simp
    next
      case AwaitUrlOpened
      have eq: "startBrowser_from this args script mx s attempt error = (None, [?j], ?s')"
        using True AwaitUrlOpened by (subst startBrowser_from.simps) (simp add: Let_def)
      show ?thesis unfolding eq using inv j one by simp
    qed
  qed
qed

lemma one_create_each_init: "one_create_each init"
  by (simp add: one_create_each_def init_def)

section \<open>Lemmas: an armed timer has its listener\<close>

lemma armed_waitsD:
  "armed_waits s \<Longrightarrow> j < length (attempts s) \<Longrightarrow> timeoutId (attempts s ! j) = Armed \<Longrightarrow>
   (''browser-opened'', j) \<in> set (listeners s) \<and> waitForUrlOpened (attempts s ! j) = Pending"
  unfolding armed_waits_def by (erule allE[of _ j]) simp

lemma armed_waitsI:
  assumes "\<And>j. j < length (attempts s) \<Longrightarrow> timeoutId (attempts s ! j) = Armed \<Longrightarrow>
     (''browser-opened'', j) \<in> set (listeners s) \<and> waitForUrlOpened (attempts s ! j) = Pending"
  shows "armed_waits s"
  unfolding armed_waits_def using assms by simp

lemma removeListener_other:
  "l \<noteq> l' \<Longrightarrow> l \<in> set ls \<Longrightarrow> l \<in> set (removeListener l' ls)"
  by (simp add: removeListener_def)

lemma nth_update_if: "j < length xs \<Longrightarrow> xs[k := x] ! j = (if k = j then x else xs ! j)"
  by simp

text \<open>A step that leaves the length alone, lets an attempt's timer be armed only where it was,
  with the promise it had, and takes only listeners of unarmed attempts out of the registry.\<close>

lemma armed_waits_local:
  assumes inv: "armed_waits s"
    and len: "length (attempts s') = length (attempts s)"
    and armed: "\<And>j. j < length (attempts s) \<Longrightarrow> timeoutId (attempts s' ! j) = Armed \<Longrightarrow>
        timeoutId (attempts s ! j) = Armed \<and> waitForUrlOpened (attempts s' ! j) = waitForUrlOpened (attempts s ! j)
        \<and> ((''browser-opened'', j) \<in> set (listeners s) \<longrightarrow> (''browser-opened'', j) \<in> set (listeners s'))"
  shows "armed_waits s'"
proof (rule armed_waitsI)
  fix j
  assume j: "j < length (attempts s')" and a: "timeoutId (attempts s' ! j) = Armed"
  from j len have j': "j < length (attempts s)" by simp
  from armed[OF j' a] armed_waitsD[OF inv j']
  show "(''browser-opened'', j) \<in> set (listeners s') \<and> waitForUrlOpened (attempts s' ! j) = Pending"
    by simp
qed

lemma hubHandler_armed_waits: "armed_waits s \<Longrightarrow> armed_waits (hubHandler k ident s)"
proof (cases "k < length (attempts s) \<and> ident = browserId (attempts s ! k)")
  case False
  then have "hubHandler k ident s = s" by (auto simp: hubHandler_def Let_def)
  then show "armed_waits s \<Longrightarrow> ?thesis" by simp
next
  case True
  assume inv: "armed_waits s"
  show ?thesis
  proof (rule armed_waits_local[OF inv])
    show "length (attempts (hubHandler k ident s)) = length (attempts s)" by simp
  next
    fix j
    assume j: "j < length (attempts s)" and a: "timeoutId (attempts (hubHandler k ident s) ! j) = Armed"
    have "j \<noteq> k"
    proof
      assume "j = k"
      with True a show False
        by (simp add: hubHandler_def Let_def split_beta clearTimeout_def split: if_splits)
    qed
    with True j a removeListener_other[of "(''browser-opened'', j)" "(''browser-opened'', k)" "listeners s"]
    show "timeoutId (attempts s ! j) = Armed
        \<and> waitForUrlOpened (attempts (hubHandler k ident s) ! j) = waitForUrlOpened (attempts s ! j)
        \<and> ((''browser-opened'', j) \<in> set (listeners s) \<longrightarrow> (''browser-opened'', j) \<in> set (listeners (hubHandler k ident s)))"
      by (simp add: hubHandler_def Let_def split_beta)
  qed
qed

lemma emit_armed_waits: "armed_waits s \<Longrightarrow> armed_waits (emit event ident s)"
proof -
  have "armed_waits s \<Longrightarrow> armed_waits (foldl (\<lambda>s' k. hubHandler k ident s') s ks)" for ks
  proof (induction ks arbitrary: s)
    case Nil
    then show ?case by simp
  next
    case (Cons k ks)
    from Cons.IH[OF hubHandler_armed_waits[OF Cons.prems, of k ident]] show ?case by simp
  qed
  then show "armed_waits s \<Longrightarrow> ?thesis" by (simp add: emit_def)
qed

lemma resume_fields:
  "j < length (attempts s) \<Longrightarrow>
   timeoutId (attempts (resume k s) ! j) = timeoutId (attempts s ! j)
   \<and> waitForUrlOpened (attempts (resume k s) ! j) = waitForUrlOpened (attempts s ! j)
   \<and> browserId (attempts (resume k s) ! j) = browserId (attempts s ! j)"
  by (simp add: resume_def split_beta nth_update_if)

lemma resume_all_fields:
  "j < length (attempts s) \<Longrightarrow>
   timeoutId (attempts (resume_all ks s) ! j) = timeoutId (attempts s ! j)
   \<and> waitForUrlOpened (attempts (resume_all ks s) ! j) = waitForUrlOpened (attempts s ! j)
   \<and> browserId (attempts (resume_all ks s) ! j) = browserId (attempts s ! j)"
  unfolding resume_all_def
proof (induction ks arbitrary: s)
  case Nil
  show ?case by simp
next
  case (Cons k ks)
  from Cons.IH[of "resume k s"] Cons.prems resume_fields[OF Cons.prems, of k] show ?case by simp
qed

lemma resume_all_armed_waits: "armed_waits s \<Longrightarrow> armed_waits (resume_all ks s)"
  by (erule armed_waits_local) (simp_all add: resume_all_fields)

lemma emitted_armed_waits: "armed_waits s \<Longrightarrow> armed_waits (emitted event ident s)"
  unfolding emitted_def by (intro resume_all_armed_waits emit_armed_waits)

lemma hub_request_armed_waits: "armed_waits s \<Longrightarrow> armed_waits (hub_request enc req s)"
proof -
  assume inv: "armed_waits s"
  have tr: "armed_waits (s'\<lparr>trace := tr\<rparr>) = armed_waits s'" for s' tr
    by (simp add: armed_waits_def)
  show ?thesis
  proof (cases "match_route req")
    case None
    with inv tr show ?thesis by (simp add: hub_request_eq)
  next
    case (Some ident)
    from emit_armed_waits[OF inv, of "''open''" ident] tr
    have "armed_waits ((emit ''open'' ident s)
               \<lparr>trace := trace (emit ''open'' ident s) @ [Respond (redirect enc req (query_url req))]\<rparr>)"
      by simp
    from resume_all_armed_waits[OF this] Some show ?thesis by (simp add: hub_request_eq)
  qed
qed

lemma u_startBrowser_armed_waits: "armed_waits s \<Longrightarrow> armed_waits (u_startBrowser this b args s)"
proof (rule armed_waitsI)
  fix j
  assume inv: "armed_waits s"
    and j: "j < length (attempts (u_startBrowser this b args s))"
    and a: "timeoutId (attempts (u_startBrowser this b args s) ! j) = Armed"
  show "(''browser-opened'', j) \<in> set (listeners (u_startBrowser this b args s))
      \<and> waitForUrlOpened (attempts (u_startBrowser this b args s) ! j) = Pending"
  proof (cases "j < length (attempts s)")
    case True
    with a have "timeoutId (attempts s ! j) = Armed"
      by (simp add: u_startBrowser_unfold nth_append)
    from armed_waitsD[OF inv True this] True show ?thesis
      by (simp add: u_startBrowser_unfold nth_append)
  next
    case False
    with j have "j = length (attempts s)" by (simp add: u_startBrowser_unfold)
    then show ?thesis by (simp add: u_startBrowser_unfold)
  qed
qed

lemma u_getWorker_next_armed_waits:
  "armed_waits s \<Longrightarrow> armed_waits (u_getWorker_next k wid n s)"
  by (erule armed_waits_local)
     (auto simp: u_getWorker_next_def Let_def split_beta nth_update_if split: if_splits)

lemma createWorker_answer_armed_waits:
  "armed_waits s \<Longrightarrow> armed_waits (createWorker_answer k answer s)"
  using u_getWorker_next_armed_waits[of s k _ 0]
  by (cases answer; cases "k < length (attempts s) \<and> stage (attempts s ! k) = AwaitCreateWorker")
     (auto simp: createWorker_answer_def armed_waits_def nth_update_if)

lemma getWorker_answer_armed_waits:
  "armed_waits s \<Longrightarrow> armed_waits (getWorker_answer k answer s)"
  by (erule armed_waits_local)
     (auto simp: getWorker_answer_def Let_def split_beta nth_update_if
           split: if_splits stage.splits option.splits)

lemma wait_done_armed_waits:
  "armed_waits s \<Longrightarrow> armed_waits (wait_done k s)"
  using u_getWorker_next_armed_waits[of s k]
  by (auto simp: wait_done_def split: stage.splits)

lemma timeout_fires_armed_waits:
  "armed_waits s \<Longrightarrow> armed_waits (timeout_fires k s)"
proof (cases "k < length (attempts s) \<and> timeoutId (attempts s ! k) = Armed")
  case False
  then have "timeout_fires k s = s" by (auto simp: timeout_fires_def)
  then show "armed_waits s \<Longrightarrow> ?thesis" by simp
next
  case True
  assume inv: "armed_waits s"
  show ?thesis
  proof (rule armed_waits_local[OF inv])
    show "length (attempts (timeout_fires k s)) = length (attempts s)"
      by (simp add: timeout_fires_def Let_def split: option.splits)
  next
    fix j
    assume j: "j < length (attempts s)" and a: "timeoutId (attempts (timeout_fires k s) ! j) = Armed"
    have "j \<noteq> k"
    proof
      assume "j = k"
      with True a show False
        by (simp add: timeout_fires_def Let_def split: option.splits)
    qed
    with True j a removeListener_other[of "(''browser-opened'', j)" "(''browser-opened'', k)" "listeners s"]
    show "timeoutId (attempts s ! j) = Armed
        \<and> waitForUrlOpened (attempts (timeout_fires k s) ! j) = waitForUrlOpened (attempts s ! j)
        \<and> ((''browser-opened'', j) \<in> set (listeners s) \<longrightarrow> (''browser-opened'', j) \<in> set (listeners (timeout_fires k s)))"
      by (simp add: timeout_fires_def Let_def split: option.splits)
  qed
qed

lemma stopBrowser_answer_armed_waits:
  "armed_waits s \<Longrightarrow> armed_waits (stopBrowser_answer k answer s)"
  by (erule armed_waits_local)
     (auto simp: stopBrowser_answer_def Let_def split_beta nth_update_if
           split: if_splits sum.splits)

lemma step_armed_waits: "armed_waits s \<Longrightarrow> armed_waits (step this s e)"
  by (cases e)
     (simp_all add: u_startBrowser_armed_waits hub_request_armed_waits emitted_armed_waits
        createWorker_answer_armed_waits getWorker_answer_armed_waits wait_done_armed_waits
        timeout_fires_armed_waits stopBrowser_answer_armed_waits)

lemma run_armed_waits: "armed_waits s \<Longrightarrow> armed_waits (run this s evs)"
proof (induction evs arbitrary: s)
  case Nil
  then show ?case by (simp add: run_def)
next
  case (Cons e evs)
  from Cons.IH[OF step_armed_waits[OF Cons.prems, of this e]] show ?case
    by (simp add: run_def)
qed

lemma armed_waits_init: "armed_waits init"
  by (simp add: armed_waits_def init_def)

lemma create_in_trace_started:
  assumes "one_create_each s" "CreateWorker j st \<in> set (trace s)"
  shows "j < length (attempts s)"
proof (rule ccontr)
  assume "\<not> j < length (attempts s)"
  with assms(1) have "length (filter (created_by [j]) (trace s)) = 0"
    unfolding one_create_each_def by (erule_tac x = j in allE) simp
  then have "filter (created_by [j]) (trace s) = []" by simp
  with assms(2) have "\<not> created_by [j] (CreateWorker j st)"
    by (simp add: filter_empty_conv)
  then show False by (simp add: created_by_def)
qed

text \<open>An emit with an attempt's id on an event its handler listens to resolves its pending
  promise.\<close>

lemma handlers_resolve:
  assumes "j < length (attempts s)" "browserId (attempts s ! j) = ident"
    and "waitForUrlOpened (attempts s ! j) = Resolved
         \<or> (waitForUrlOpened (attempts s ! j) = Pending \<and> j \<in> set ks)"
  shows "waitForUrlOpened (attempts (foldl (\<lambda>s' k. hubHandler k ident s') s ks) ! j) = Resolved"
  using assms
proof (induction ks arbitrary: s)
  case Nil
  then show ?case by simp
next
  case (Cons k ks)
  let ?s' = "hubHandler k ident s"
  have len: "j < length (attempts ?s')" using Cons.prems(1) by simp
  show ?case
  proof (cases "k = j")
    case True
    with Cons.prems have "browserId (attempts ?s' ! j) = ident"
      and "waitForUrlOpened (attempts ?s' ! j) = Resolved"
      by (auto simp: hubHandler_def Let_def split_beta resolve_def)
    with Cons.IH[OF len] show ?thesis by simp
  next
    case False
    with hubHandler_other[of j s k ident] Cons.prems(1)
    have same: "attempts ?s' ! j = attempts s ! j" by simp
    from Cons.prems(3) False have "waitForUrlOpened (attempts s ! j) = Resolved
         \<or> (waitForUrlOpened (attempts s ! j) = Pending \<and> j \<in> set ks)" by auto
    with Cons.IH[OF len] same Cons.prems(2) show ?thesis by simp
  qed
qed

lemma emit_resolves:
  assumes "(event, j) \<in> set (listeners s)" "j < length (attempts s)"
    and "browserId (attempts s ! j) = ident" "waitForUrlOpened (attempts s ! j) = Pending"
  shows "waitForUrlOpened (attempts (emit event ident s) ! j) = Resolved"
proof -
  from assms(1) have "j \<in> set (map snd (filter (\<lambda>l. fst l = event) (listeners s)))"
    by force
  with handlers_resolve[OF assms(2,3), of "map snd (filter (\<lambda>l. fst l = event) (listeners s))"] assms(4)
  show ?thesis by (simp add: emit_def)
qed

text \<open>The continuations that run afterwards leave the promise as the handler settled it.\<close>

lemma emitted_resolves:
  assumes "(event, j) \<in> set (listeners s)" "j < length (attempts s)"
    and "browserId (attempts s ! j) = ident" "waitForUrlOpened (attempts s ! j) = Pending"
  shows "waitForUrlOpened (attempts (emitted event ident s) ! j) = Resolved"
  using emit_resolves[OF assms] resume_all_fields[of j "emit event ident s" "woken event ident s"] assms(2)
  by (simp add: emitted_def)


lemmas scenario_defs = run_def init_def u_startBrowser_unfold createWorker_answer_def
  u_getWorker_next_def getWorker_answer_def wait_done_def wait_def requestTimeout_def
  timeout_fires_def stopBrowser_answer_def hub_request_def u_setupRoutes_def match_route_def
  match_path_def redirect_def location_def
  emit_def hubHandler_def emitted_def woken_def resume_def resume_all_def
  after_await_def resolve_def reject_def clearTimeout_def removeListener_def
  example_connector_def as_it_is_def example_args_def running_farm_def callback_request_def
  getWorker_def maxAttempts_def

section \<open>The claims\<close>

text \<open>
  Claim C1 says: if the callback request carrying the attempt's id reaches the hub after the
  listener is registered and before the timer fires, the waiter resolves and the attempt
  succeeds. The code does not do that. The route emits the event \<^verbatim>\<open>'open'\<close>; the attempt's
  listener was added on \<^verbatim>\<open>'browser-opened'\<close>. At \<open>lost_wakeup_events\<close> the request is
  answered with the redirect, the promise is still pending, the body still waits, the listener
  is still registered, and when the timer then fires the attempt ends with the timeout.
\<close>

theorem callback_leaves_waiter_pending:
  "waitForUrlOpened (attempts (run example_connector init lost_wakeup_events) ! 0) = Pending
   \<and> stage (attempts (run example_connector init lost_wakeup_events) ! 0) = AwaitUrlOpened
   \<and> listeners (run example_connector init lost_wakeup_events) = [(''browser-opened'', 0)]
   \<and> last (trace (run example_connector init lost_wakeup_events))
         = Respond (Redirect 302 ''http://example.com'')
   \<and> stage (attempts (run example_connector init
                (lost_wakeup_events @ [TimeoutFires 0, StopBrowserAnswer 0 (Inr 5)])) ! 0)
         = Threw (Reason ''Browser starting timeout expired'')"
  by (simp add: lost_wakeup_events_def scenario_defs)

text \<open>For comparison: the same run with \<^verbatim>\<open>'browser-opened'\<close> emitted on the hub returns the
  worker.\<close>

lemma direct_emit_resolves:
  "waitForUrlOpened (attempts (run example_connector init direct_emit_events) ! 0) = Resolved
   \<and> stage (attempts (run example_connector init direct_emit_events) ! 0)
       = Returned \<lparr> worker_id = ''w1'', status = ''running'', browser_url = ''http://farm/session'' \<rparr>"
  by (simp add: direct_emit_events_def scenario_defs)

lemma early_timeout_orphaned:
  "orphaned 0 (run example_connector init early_timeout_events)"
  by (simp add: orphaned_def early_timeout_events_def scenario_defs)

text \<open>
  Claim C2 says: with no notification within the opening timeout, the attempt fails with the
  timeout error and its worker is terminated exactly once, no attempt being left unresolved.
  The code does not do that when the timer fires before \<^verbatim>\<open>_getWorker\<close> has returned: the
  variable \<^verbatim>\<open>worker\<close> is still \<^verbatim>\<open>null\<close>, \<^verbatim>\<open>worker.id\<close> throws inside the timer's callback,
  no terminate request is sent and \<^verbatim>\<open>reject\<close> is never reached. At
  \<open>early_timeout_events\<close> the trace holds no \<open>TerminateWorker\<close>, and whatever happens
  afterwards (\<open>evs\<close>) the attempt stays suspended on a pending promise.
\<close>

theorem early_timeout_never_settles:
  "timeoutId (attempts (run example_connector init early_timeout_events) ! 0) = Crashed TypeError
   \<and> trace (run example_connector init early_timeout_events)
       = [SetTimeout 0 (Some 1000), AddListener ''browser-opened'' 0,
          CreateWorker 0 (createWorker_settings example_connector ''abc123'' example_args),
          GetWorker ''w1'', RemoveListener ''browser-opened'' 0]
   \<and> stage (attempts (run this (run example_connector init early_timeout_events) evs) ! 0) = AwaitUrlOpened
   \<and> waitForUrlOpened (attempts (run this (run example_connector init early_timeout_events) evs) ! 0) = Pending
   \<and> timeoutId (attempts (run this (run example_connector init early_timeout_events) evs) ! 0) = Crashed TypeError"
proof -
  have a: "timeoutId (attempts (run example_connector init early_timeout_events) ! 0) = Crashed TypeError"
    by (simp add: early_timeout_events_def scenario_defs)
  have b: "trace (run example_connector init early_timeout_events)
       = [SetTimeout 0 (Some 1000), AddListener ''browser-opened'' 0,
          CreateWorker 0 (createWorker_settings example_connector ''abc123'' example_args),
          GetWorker ''w1'', RemoveListener ''browser-opened'' 0]"
    by (simp add: early_timeout_events_def scenario_defs)
  from run_orphaned[OF early_timeout_orphaned, of this evs]
  have o: "orphaned 0 (run this (run example_connector init early_timeout_events) evs)"
    and same: "attempts (run this (run example_connector init early_timeout_events) evs) ! 0
               = attempts (run example_connector init early_timeout_events) ! 0"
    by simp_all
  from o have c: "stage (attempts (run this (run example_connector init early_timeout_events) evs) ! 0) = AwaitUrlOpened"
    and d: "waitForUrlOpened (attempts (run this (run example_connector init early_timeout_events) evs) ! 0) = Pending"
    unfolding orphaned_def by blast+
  from a have e: "timeoutId (attempts (run this (run example_connector init early_timeout_events) evs) ! 0) = Crashed TypeError"
    unfolding same .
  from a b c d e show ?thesis by blast
qed

lemmas admission_defs = waitForFreeMachines_def u_getFreeMachineCount_def
  u_getMaxAvailableMachines_def u_getWorkers_def wait_def
  waitForFreeMachines_from.simps [of _ _ _ _ 0] waitForFreeMachines_from.simps [of _ _ _ _ "Suc 0"]
  waitForFreeMachines_from.simps [of _ _ _ _ "Suc (Suc 0)"]
  waitForFreeMachines_from.simps [of _ _ _ _ "Suc (Suc (Suc 0))"]

text \<open>
  Claim C4. When the loop makes a first check (\<open>maxAttemptCount\<close> at least 1) and that check
  finds quota minus active workers at least \<open>machineCount\<close>, \<^verbatim>\<open>waitForFreeMachines\<close> returns
  at once: one pair of queries, no log line, no sleep. When every poll the loop makes answers
  both queries and stays below \<open>machineCount\<close>, the call fails with the error
  \<^verbatim>\<open>'There are no free machines'\<close>.
\<close>
theorem waitForFreeMachines_admission:
  "(0 < maxAttemptCount \<and> env 0 = (Inr st, Inr ws)
      \<and> machineCount \<le> sessions_limit st - int (length ws)
     \<longrightarrow> waitForFreeMachines env machineCount requestInterval maxAttemptCount
           = (Inr (), [GetApiStatus, GetWorkers]))
   \<and> ((\<forall>k. int k < maxAttemptCount \<longrightarrow> short machineCount (env k))
     \<longrightarrow> fst (waitForFreeMachines env machineCount requestInterval maxAttemptCount)
           = Inl (Error ''There are no free machines''))"
proof (intro conjI impI)
  assume "0 < maxAttemptCount \<and> env 0 = (Inr st, Inr ws)
      \<and> machineCount \<le> sessions_limit st - int (length ws)"
  then show "waitForFreeMachines env machineCount requestInterval maxAttemptCount
           = (Inr (), [GetApiStatus, GetWorkers])"
    using waitForFreeMachines_first_check[of maxAttemptCount env st ws machineCount requestInterval]
    by blast
next
  assume "\<forall>k. int k < maxAttemptCount \<longrightarrow> short machineCount (env k)"
  then have "\<forall>k. 0 \<le> k \<and> int k < maxAttemptCount \<longrightarrow> short machineCount (env k)"
    by simp
  from waitForFreeMachines_exhausted[of 0 maxAttemptCount machineCount env requestInterval, OF this]
  show "fst (waitForFreeMachines env machineCount requestInterval maxAttemptCount)
           = Inl (Error ''There are no free machines'')"
    by (simp add: waitForFreeMachines_def)
qed

theorem waitForFreeMachines_admission_witness:
  "(0::int) < 3 \<and> busy_farm 0 = (Inr \<lparr> sessions_limit = 5 \<rparr>, Inr (replicate 4 some_worker))
   \<and> (1::int) \<le> sessions_limit \<lparr> sessions_limit = 5 \<rparr> - int (length (replicate 4 some_worker))
   \<and> waitForFreeMachines busy_farm 1 1000 3 = (Inr (), [GetApiStatus, GetWorkers])
   \<and> short 2 (busy_farm 0) \<and> short 2 (busy_farm 1) \<and> short 2 (busy_farm 2)
   \<and> fst (waitForFreeMachines busy_farm 2 1000 3) = Inl (Error ''There are no free machines'')"
  using waitForFreeMachines_admission
          [of 3 busy_farm "\<lparr> sessions_limit = 5 \<rparr>" "replicate 4 some_worker" 1 1000]
        waitForFreeMachines_admission
          [of 3 busy_farm "\<lparr> sessions_limit = 5 \<rparr>" "replicate 4 some_worker" 2 1000]
  by (simp add: busy_farm_def short_def)

text \<open>The spec's scenario: 2 required, quota 5, 4 active and then 2: success at the second
  poll, after one sleep.\<close>
lemma draining_farm_two_polls:
  "waitForFreeMachines draining_farm 2 1000 3
     = (Inr (), [GetApiStatus, GetWorkers, LogShortfall 1 2, Wait 1000, GetApiStatus, GetWorkers])"
  by (simp add: admission_defs draining_farm_def)

text \<open>
  Claim C5 says that a call with \<open>machineCount = 0\<close> succeeds at once for every
  \<open>requestInterval\<close> and every \<open>maxAttemptCount\<close>. With \<open>maxAttemptCount = 0\<close> the loop
  body never runs and the call throws, although the farm is idle.
\<close>
theorem zero_machines_zero_attempts_counterexample:
  "waitForFreeMachines idle_farm 0 1000 0 = (Inl (Error ''There are no free machines''), [])"
  by (simp add: admission_defs idle_farm_def)

text \<open>
  Claim C5, amended: for every \<open>requestInterval\<close> and every \<open>maxAttemptCount\<close> of at least
  1, a call with \<open>machineCount = 0\<close> succeeds at its first check, without a sleep, when
  both queries of that check are answered and the active workers do not exceed the quota.
\<close>
theorem zero_machines_first_check:
  "0 < maxAttemptCount \<Longrightarrow> env 0 = (Inr st, Inr ws) \<Longrightarrow> int (length ws) \<le> sessions_limit st \<Longrightarrow>
   waitForFreeMachines env 0 requestInterval maxAttemptCount = (Inr (), [GetApiStatus, GetWorkers])"
  by (rule waitForFreeMachines_first_check) simp_all

theorem zero_machines_first_check_witness:
  "(0::int) < 1 \<and> idle_farm 0 = (Inr \<lparr> sessions_limit = 5 \<rparr>, Inr [])
   \<and> int (length ([] :: worker list)) \<le> sessions_limit \<lparr> sessions_limit = 5 \<rparr>
   \<and> waitForFreeMachines idle_farm 0 1000 1 = (Inr (), [GetApiStatus, GetWorkers])"
  using zero_machines_first_check [of 1 idle_farm "\<lparr> sessions_limit = 5 \<rparr>" "[]" 1000]
  by (simp add: idle_farm_def)

text \<open>
  Claim C6 says that a failed quota query or a failed worker listing surfaces as the transport
  error. For the listing the code does not do that: \<^verbatim>\<open>_getWorkers\<close> drops \<^verbatim>\<open>err\<close> and
  resolves with \<^verbatim>\<open>undefined\<close>, and the call ends with the TypeError of
  \<^verbatim>\<open>workers.length\<close>, not with the error the client reported.
\<close>
theorem listing_failure_surfaces_TypeError:
  "u_getWorkers (snd (listing_down 0)) = None
   \<and> waitForFreeMachines listing_down 1 1000 3 = (Inl TypeError, [GetApiStatus, GetWorkers])
   \<and> fst (waitForFreeMachines listing_down 1 1000 3) \<noteq> Inl (ApiError ''ECONNRESET'')"
  by (simp add: admission_defs listing_down_def)

text \<open>The sibling query does surface its error: it is logged and the call rejects with
  it at the first poll.\<close>
lemma quota_failure_propagates:
  "0 < maxAttemptCount \<Longrightarrow> fst (env 0) = Inl err \<Longrightarrow>
   waitForFreeMachines env machineCount requestInterval maxAttemptCount
     = (Inl (ApiError err), [GetApiStatus, GetWorkers, LogError err])"
  by (simp add: admission_defs)

text \<open>
  Claim C10. When none of the 31 polls (\<open>k = 0, ..., 30\<close>) shows the worker running,
  \<^verbatim>\<open>getSessionUrl\<close> resolves with \<^verbatim>\<open>undefined\<close>; it does not reject. It has polled 31 times
  and slept 10000 ms after each poll.
\<close>
theorem getSessionUrl_undefined:
  "(\<forall>k. k \<le> 30 \<longrightarrow> not_running (env wid k)) \<Longrightarrow>
   getSessionUrl env wid = (Inr None, concat (replicate 31 [GetWorker wid, Wait 10000]))"
proof -
  assume "\<forall>k. k \<le> 30 \<longrightarrow> not_running (env wid k)"
  then have "\<forall>k. 0 \<le> k \<and> k \<le> maxAttempts \<longrightarrow> not_running (env wid k)"
    by (simp add: maxAttempts_def)
  from u_getWorker_from_exhausted[of 0 env wid, OF this]
  have "u_getWorker env wid = (Inr None, concat (replicate 31 [GetWorker wid, Wait 10000]))"
    by (simp add: u_getWorker_def maxAttempts_def wait_def requestTimeout_def)
  then show ?thesis by (simp add: getSessionUrl_def)
qed

theorem getSessionUrl_undefined_witness:
  "not_running (queued_farm ''w1'' 0) \<and> not_running (queued_farm ''w1'' 30)
   \<and> getSessionUrl queued_farm ''w1'' = (Inr None, concat (replicate 31 [GetWorker ''w1'', Wait 10000]))"
  using getSessionUrl_undefined [of queued_farm "''w1''"]
  by (simp add: queued_farm_def not_running_def)







text \<open>
  Claim C7. Take an attempt \<open>j\<close> whose promise is not resolved, and any sequence of events
  in which every notification (an \<^verbatim>\<open>emit\<close> on the hub under any event name, or a request
  the route matches) carries an id other than the attempt's. After these events the promise
  of attempt \<open>j\<close> is still not resolved, whatever the other attempts did in between.
\<close>
theorem correlation_isolation:
  "j < length (attempts s) \<Longrightarrow> waitForUrlOpened (attempts s ! j) \<noteq> Resolved \<Longrightarrow>
   list_all (\<lambda>e. \<not> carries (browserId (attempts s ! j)) e) evs \<Longrightarrow>
   waitForUrlOpened (attempts (run this s evs) ! j) \<noteq> Resolved
   \<and> browserId (attempts (run this s evs) ! j) = browserId (attempts s ! j)"
  using run_keeps_unconfirmed[of j s "browserId (attempts s ! j)" evs this]
  by (simp add: unconfirmed_def)

lemma two_waiting_eval:
  "attempts two_waiting =
      [\<lparr>browserId = ''A'', browserName = Some ''chrome'',
          worker = Some \<lparr>worker_id = ''w1'', status = ''running'', browser_url = ''http://farm/session''\<rparr>,
          waitForUrlOpened = Pending, timeoutId = Armed, stage = AwaitUrlOpened\<rparr>,
       \<lparr>browserId = ''B'', browserName = Some ''chrome'',
          worker = Some \<lparr>worker_id = ''w2'', status = ''running'', browser_url = ''http://farm/session''\<rparr>,
          waitForUrlOpened = Pending, timeoutId = Armed, stage = AwaitUrlOpened\<rparr>]"
  "listeners two_waiting = [(''browser-opened'', 0), (''browser-opened'', 1)]"
  by (simp_all add: two_waiting_def scenario_defs)

lemma notify_A_eval:
  "attempts (run example_connector two_waiting notify_A) =
      [\<lparr>browserId = ''A'', browserName = Some ''chrome'',
          worker = Some \<lparr>worker_id = ''w1'', status = ''running'', browser_url = ''http://farm/session''\<rparr>,
          waitForUrlOpened = Resolved, timeoutId = Cleared,
          stage = Returned \<lparr>worker_id = ''w1'', status = ''running'', browser_url = ''http://farm/session''\<rparr>\<rparr>,
       \<lparr>browserId = ''B'', browserName = Some ''chrome'',
          worker = Some \<lparr>worker_id = ''w2'', status = ''running'', browser_url = ''http://farm/session''\<rparr>,
          waitForUrlOpened = Pending, timeoutId = Armed, stage = AwaitUrlOpened\<rparr>]"
  by (simp add: notify_A_def run_def hub_request_def u_setupRoutes_def match_route_def match_path_def
        redirect_def location_def callback_request_def emit_def hubHandler_def emitted_def woken_def
        resume_def resume_all_def after_await_def
        resolve_def clearTimeout_def removeListener_def two_waiting_eval)

theorem correlation_isolation_witness:
  "Suc 0 < length (attempts two_waiting) \<and> waitForUrlOpened (attempts two_waiting ! Suc 0) \<noteq> Resolved
   \<and> list_all (\<lambda>e. \<not> carries (browserId (attempts two_waiting ! Suc 0)) e) notify_A
   \<and> waitForUrlOpened (attempts (run example_connector two_waiting notify_A) ! Suc 0) \<noteq> Resolved
   \<and> browserId (attempts (run example_connector two_waiting notify_A) ! Suc 0) = ''B''
   \<and> waitForUrlOpened (attempts (run example_connector two_waiting notify_A) ! 0) = Resolved"
proof -
  have h1: "Suc 0 < length (attempts two_waiting)"
    and h2: "waitForUrlOpened (attempts two_waiting ! Suc 0) \<noteq> Resolved"
    and h3: "list_all (\<lambda>e. \<not> carries (browserId (attempts two_waiting ! Suc 0)) e) notify_A"
    by (simp_all add: two_waiting_eval notify_A_def carries_def callback_request_def match_route_def
          match_path_def)
  have other: "waitForUrlOpened (attempts (run example_connector two_waiting notify_A) ! 0) = Resolved"
    by (simp add: notify_A_eval)
  from correlation_isolation[OF h1 h2 h3, of example_connector] h1 h2 h3 other show ?thesis
    by (simp add: two_waiting_eval)
qed

text \<open>
  Claim C8. Within every attempt the listener for the attempt's id is registered on the hub
  before the create request is sent.
  \<^item> In the trace of every run from the initial state, each create request of an attempt
    \<open>j\<close> comes after the \<^verbatim>\<open>addListener('browser-opened', ...)\<close> of the same attempt.
  \<^item> A call of \<^verbatim>\<open>_startBrowser\<close> in a state such a run reaches is the promise's executor
    followed by \<^verbatim>\<open>createWorker()\<close>. The state \<^verbatim>\<open>createWorker()\<close> starts from already holds
    the listener in the hub's registry, and no create request of the attempt has been sent
    in it; \<^verbatim>\<open>createWorker()\<close> sends the request and leaves the registry as it is.
  \<^item> In every state a run reaches, an attempt whose create request has been sent and whose
    timer is still armed has its listener in the registry, and an \<^verbatim>\<open>emit\<close> of
    \<^verbatim>\<open>'browser-opened'\<close> with the attempt's id resolves its promise.
\<close>
theorem listener_before_create:
  "(i < length (trace (run this init evs)) \<and> trace (run this init evs) ! i = CreateWorker j st
      \<longrightarrow> (\<exists>i'<i. trace (run this init evs) ! i' = AddListener ''browser-opened'' j))
   \<and> step this (run this init evs) (StartAttempt b args)
       = createWorker this b args (length (attempts (run this init evs)))
           (new_waitForUrlOpened b args (run this init evs))
   \<and> (''browser-opened'', length (attempts (run this init evs)))
       \<in> set (listeners (new_waitForUrlOpened b args (run this init evs)))
   \<and> CreateWorker (length (attempts (run this init evs))) st
       \<notin> set (trace (new_waitForUrlOpened b args (run this init evs)))
   \<and> trace (createWorker this b args n s) = trace s @ [CreateWorker n (createWorker_settings this b args)]
   \<and> listeners (createWorker this b args n s) = listeners s
   \<and> (CreateWorker j st \<in> set (trace (run this init evs))
        \<and> timeoutId (attempts (run this init evs) ! j) = Armed
      \<longrightarrow> (''browser-opened'', j) \<in> set (listeners (run this init evs))
          \<and> waitForUrlOpened
               (attempts (step this (run this init evs)
                            (Emit ''browser-opened'' (browserId (attempts (run this init evs) ! j)))) ! j)
              = Resolved)"
proof -
  let ?R = "run this init evs"
  have "listener_first (trace init)"
    by (simp add: listener_first_def init_def)
  from run_listener_first[OF this, of this evs]
  have a: "i < length (trace ?R) \<and> trace ?R ! i = CreateWorker j st
      \<longrightarrow> (\<exists>i'<i. trace ?R ! i' = AddListener ''browser-opened'' j)"
    unfolding listener_first_def by blast
  have b: "step this ?R (StartAttempt b args)
       = createWorker this b args (length (attempts ?R)) (new_waitForUrlOpened b args ?R)"
    by (simp add: u_startBrowser_def)
  have c: "(''browser-opened'', length (attempts ?R)) \<in> set (listeners (new_waitForUrlOpened b args ?R))"
    by (simp add: new_waitForUrlOpened_def Let_def)
  have inv: "one_create_each ?R"
    by (rule run_one_create_each[OF one_create_each_init])
  have d: "CreateWorker (length (attempts ?R)) st \<notin> set (trace (new_waitForUrlOpened b args ?R))"
  proof
    assume "CreateWorker (length (attempts ?R)) st \<in> set (trace (new_waitForUrlOpened b args ?R))"
    then have "CreateWorker (length (attempts ?R)) st \<in> set (trace ?R)"
      by (simp add: new_waitForUrlOpened_def Let_def)
    from create_in_trace_started[OF inv this] show False by simp
  qed
  have e: "trace (createWorker this b args n s) = trace s @ [CreateWorker n (createWorker_settings this b args)]"
    and f: "listeners (createWorker this b args n s) = listeners s"
    by (simp_all add: createWorker_def)
  have g: "CreateWorker j st \<in> set (trace ?R) \<and> timeoutId (attempts ?R ! j) = Armed
      \<longrightarrow> (''browser-opened'', j) \<in> set (listeners ?R)
          \<and> waitForUrlOpened (attempts (step this ?R (Emit ''browser-opened'' (browserId (attempts ?R ! j)))) ! j)
              = Resolved"
  proof
    assume h: "CreateWorker j st \<in> set (trace ?R) \<and> timeoutId (attempts ?R ! j) = Armed"
    then have j: "j < length (attempts ?R)"
      using create_in_trace_started[OF inv] by blast
    from armed_waitsD[OF run_armed_waits[OF armed_waits_init, of this evs] j] h
    have l: "(''browser-opened'', j) \<in> set (listeners ?R)"
      and p: "waitForUrlOpened (attempts ?R ! j) = Pending"
      by blast+
    from emitted_resolves[OF l j refl p] l
    show "(''browser-opened'', j) \<in> set (listeners ?R)
          \<and> waitForUrlOpened (attempts (step this ?R (Emit ''browser-opened'' (browserId (attempts ?R ! j)))) ! j)
              = Resolved"
      by simp
  qed
  from a b c d e f g show ?thesis by blast
qed

lemma lost_wakeup_state:
  "trace (run example_connector init lost_wakeup_events)
     = [SetTimeout 0 (Some 1000), AddListener ''browser-opened'' 0,
        CreateWorker 0 (createWorker_settings example_connector ''abc123'' example_args),
        GetWorker ''w1'', Respond (Redirect 302 ''http://example.com'')]"
  "timeoutId (attempts (run example_connector init lost_wakeup_events) ! 0) = Armed"
  "browserId (attempts (run example_connector init lost_wakeup_events) ! 0) = ''abc123''"
  by (simp_all add: lost_wakeup_events_def scenario_defs)

theorem listener_before_create_witness:
  "2 < length (trace (run example_connector init lost_wakeup_events))
   \<and> trace (run example_connector init lost_wakeup_events) ! 2
       = CreateWorker 0 (createWorker_settings example_connector ''abc123'' example_args)
   \<and> (\<exists>i'<2. trace (run example_connector init lost_wakeup_events) ! i' = AddListener ''browser-opened'' 0)
   \<and> CreateWorker 0 (createWorker_settings example_connector ''abc123'' example_args)
       \<in> set (trace (run example_connector init lost_wakeup_events))
   \<and> timeoutId (attempts (run example_connector init lost_wakeup_events) ! 0) = Armed
   \<and> (''browser-opened'', 0) \<in> set (listeners (run example_connector init lost_wakeup_events))
   \<and> waitForUrlOpened
        (attempts (step example_connector (run example_connector init lost_wakeup_events)
                     (Emit ''browser-opened'' ''abc123'')) ! 0)
       = Resolved"
proof -
  have h1: "2 < length (trace (run example_connector init lost_wakeup_events))"
    and h2: "trace (run example_connector init lost_wakeup_events) ! 2
       = CreateWorker 0 (createWorker_settings example_connector ''abc123'' example_args)"
    and h3: "CreateWorker 0 (createWorker_settings example_connector ''abc123'' example_args)
       \<in> set (trace (run example_connector init lost_wakeup_events))"
    by (simp_all add: lost_wakeup_state)
  from listener_before_create
         [of 2 example_connector lost_wakeup_events 0
             "createWorker_settings example_connector ''abc123'' example_args"]
       h1 h2 h3 lost_wakeup_state(2,3)
  show ?thesis by simp
qed

lemma startBrowser_from_Returned:
  assumes "int attempt < mx"
    and "s' = run this (u_startBrowser this (fst (script attempt)) args s) (snd (script attempt))"
    and "stage (attempts s' ! length (attempts s)) = Returned w"
  shows "startBrowser_from this args script mx s attempt error
           = (Some (Inr (Some w)), [length (attempts s)], s')"
  using assms by (subst startBrowser_from.simps) (simp add: Let_def)

lemma startBrowser_from_Threw:
  assumes "int attempt < mx"
    and "s' = run this (u_startBrowser this (fst (script attempt)) args s) (snd (script attempt))"
    and "stage (attempts s' ! length (attempts s)) = Threw err"
  shows "startBrowser_from this args script mx s attempt error
           = (fst (startBrowser_from this args script mx s' (Suc attempt) (Some err)),
              length (attempts s) # fst (snd (startBrowser_from this args script mx s' (Suc attempt) (Some err))),
              snd (snd (startBrowser_from this args script mx s' (Suc attempt) (Some err))))"
  using assms by (subst startBrowser_from.simps) (simp add: Let_def split_beta)

text \<open>
  Claim C3 says that \<^verbatim>\<open>startBrowser\<close> with \<open>maxAttepts = N\<close> makes at most \<open>N\<close> attempts.
  With \<open>N = 0\<close> the default replaces it (\<^verbatim>\<open>maxAttepts || 3\<close>): when every create request is
  refused, three attempts are made.
\<close>
theorem zero_maxAttepts_counterexample:
  "fst (snd (startBrowser example_connector example_args (Some 0) create_fails init)) = [0, 1, 2]
   \<and> \<not> length (fst (snd (startBrowser example_connector example_args (Some 0) create_fails init))) \<le> nat 0"
proof -
  define a where
    "a = example_args\<lparr>openingTimeout := Some (or_int (openingTimeout example_args) DEFAULT_BROWSER_OPENING_TIMEOUT)\<rparr>"
  define s0 where
    "s0 = run example_connector (u_startBrowser example_connector (fst (create_fails 0)) a init) (snd (create_fails 0))"
  define s1 where
    "s1 = run example_connector (u_startBrowser example_connector (fst (create_fails (Suc 0))) a s0)
            (snd (create_fails (Suc 0)))"
  define s2 where
    "s2 = run example_connector (u_startBrowser example_connector (fst (create_fails (Suc (Suc 0)))) a s1)
            (snd (create_fails (Suc (Suc 0))))"
  have len0: "length (attempts init) = 0"
    by (simp add: init_def)
  have s0: "length (attempts s0) = Suc 0" "stage (attempts s0 ! 0) = Threw (ApiError ''503'')"
    by (simp_all add: s0_def create_fails_def run_def init_def u_startBrowser_unfold createWorker_answer_def)
  have s1: "length (attempts s1) = Suc (Suc 0)" "stage (attempts s1 ! Suc 0) = Threw (ApiError ''503'')"
    using s0(1)
    by (simp_all add: s1_def create_fails_def run_def u_startBrowser_unfold createWorker_answer_def nth_append)
  have s2: "stage (attempts s2 ! Suc (Suc 0)) = Threw (ApiError ''503'')"
    using s1(1)
    by (simp_all add: s2_def create_fails_def run_def u_startBrowser_unfold createWorker_answer_def nth_append)
  have last: "fst (snd (startBrowser_from example_connector a create_fails 3 s2 (Suc (Suc (Suc 0)))
                     (Some (ApiError ''503'')))) = []"
    by (subst startBrowser_from.simps) simp
  have third: "fst (snd (startBrowser_from example_connector a create_fails 3 s1 (Suc (Suc 0))
                     (Some (ApiError ''503'')))) = [Suc (Suc 0)]"
    using startBrowser_from_Threw[where script = create_fails and attempt = "Suc (Suc 0)" and mx = 3
            and s = s1 and s' = s2 and this = example_connector and args = a
            and err = "ApiError ''503''" and error = "Some (ApiError ''503'')", OF _ s2_def]
          s1 s2 last
    by simp
  have second: "fst (snd (startBrowser_from example_connector a create_fails 3 s0 (Suc 0)
                     (Some (ApiError ''503'')))) = [Suc 0, Suc (Suc 0)]"
    using startBrowser_from_Threw[where script = create_fails and attempt = "Suc 0" and mx = 3
            and s = s0 and s' = s1 and this = example_connector and args = a
            and err = "ApiError ''503''" and error = "Some (ApiError ''503'')", OF _ s1_def]
          s0 s1 third
    by simp
  have first: "fst (snd (startBrowser_from example_connector a create_fails 3 init 0 None))
                 = [0, Suc 0, Suc (Suc 0)]"
    using startBrowser_from_Threw[where script = create_fails and attempt = 0 and mx = 3
            and s = init and s' = s0 and this = example_connector and args = a
            and err = "ApiError ''503''" and error = None, OF _ s0_def]
          s0 len0 second
    by simp
  have "startBrowser example_connector example_args (Some 0) create_fails init
        = startBrowser_from example_connector a create_fails 3 init 0 None"
    by (simp add: startBrowser_def a_def or_int_def DEFAULT_BROWSER_OPENING_MAX_ATTEMPT_def)
  with first show ?thesis by simp
qed

text \<open>
  Claim C3, amended: with \<open>maxAttepts = N\<close> and \<open>N\<close> not 0, \<^verbatim>\<open>startBrowser\<close> makes at most
  \<open>N\<close> attempts (none when \<open>N\<close> is negative); with \<open>maxAttepts\<close> 0 or omitted it makes at
  most 3. Started in a state reached from the initial one, it sends exactly one create
  request for each attempt it makes. When it returns a worker, the last attempt
  it made has its promise \<open>waitForUrlOpened\<close> resolved, and a notification carrying that
  attempt's id occurred while the attempt was awaited.
\<close>
theorem startBrowser_retry_bound:
  "(N \<noteq> 0 \<longrightarrow> length (fst (snd (startBrowser this args (Some N) script s))) \<le> nat N)
   \<and> length (fst (snd (startBrowser this args (Some 0) script s))) \<le> 3
   \<and> length (fst (snd (startBrowser this args None script s))) \<le> 3
   \<and> (fst (startBrowser this args mx script s) = Some (Inr (Some w))
      \<longrightarrow> fst (snd (startBrowser this args mx script s)) \<noteq> []
          \<and> waitForUrlOpened (attempts (snd (snd (startBrowser this args mx script s)))
               ! last (fst (snd (startBrowser this args mx script s)))) = Resolved
          \<and> list_ex (carries (fst (script (length (fst (snd (startBrowser this args mx script s))) - 1))))
               (snd (script (length (fst (snd (startBrowser this args mx script s))) - 1))))
   \<and> length (filter (created_by (fst (snd (startBrowser this args mx script (run this init evs0)))))
               (trace (snd (snd (startBrowser this args mx script (run this init evs0))))))
       = length (fst (snd (startBrowser this args mx script (run this init evs0))))"
proof -
  define args' where
    "args' = args\<lparr>openingTimeout := Some (or_int (openingTimeout args) DEFAULT_BROWSER_OPENING_TIMEOUT)\<rparr>"
  have eq: "startBrowser this args m script s
              = startBrowser_from this args' script (or_int m DEFAULT_BROWSER_OPENING_MAX_ATTEMPT) s 0 None" for m
    unfolding startBrowser_def Let_def args'_def ..
  have a: "N \<noteq> 0 \<longrightarrow> length (fst (snd (startBrowser this args (Some N) script s))) \<le> nat N"
    using startBrowser_from_bound[of this args' script N s 0 None]
    unfolding eq by (simp add: or_int_def)
  have b: "length (fst (snd (startBrowser this args (Some 0) script s))) \<le> 3"
    using startBrowser_from_bound[of this args' script 3 s 0 None]
    unfolding eq by (simp add: or_int_def DEFAULT_BROWSER_OPENING_MAX_ATTEMPT_def)
  have c: "length (fst (snd (startBrowser this args None script s))) \<le> 3"
    using startBrowser_from_bound[of this args' script 3 s 0 None]
    unfolding eq by (simp add: or_int_def DEFAULT_BROWSER_OPENING_MAX_ATTEMPT_def)
  have d: "fst (startBrowser this args mx script s) = Some (Inr (Some w))
      \<longrightarrow> fst (snd (startBrowser this args mx script s)) \<noteq> []
          \<and> waitForUrlOpened (attempts (snd (snd (startBrowser this args mx script s)))
               ! last (fst (snd (startBrowser this args mx script s)))) = Resolved
          \<and> list_ex (carries (fst (script (length (fst (snd (startBrowser this args mx script s))) - 1))))
               (snd (script (length (fst (snd (startBrowser this args mx script s))) - 1)))"
  proof
    assume "fst (startBrowser this args mx script s) = Some (Inr (Some w))"
    then have "fst (startBrowser_from this args' script (or_int mx DEFAULT_BROWSER_OPENING_MAX_ATTEMPT) s 0 None)
                 = Some (Inr (Some w))"
      unfolding eq .
    from startBrowser_from_confirmed[OF this]
    show "fst (snd (startBrowser this args mx script s)) \<noteq> []
          \<and> waitForUrlOpened (attempts (snd (snd (startBrowser this args mx script s)))
               ! last (fst (snd (startBrowser this args mx script s)))) = Resolved
          \<and> list_ex (carries (fst (script (length (fst (snd (startBrowser this args mx script s))) - 1))))
               (snd (script (length (fst (snd (startBrowser this args mx script s))) - 1)))"
      unfolding eq by simp
  qed
  have e: "length (filter (created_by (fst (snd (startBrowser this args mx script (run this init evs0)))))
               (trace (snd (snd (startBrowser this args mx script (run this init evs0))))))
       = length (fst (snd (startBrowser this args mx script (run this init evs0))))"
    using startBrowser_from_creates[OF run_one_create_each[OF one_create_each_init, of this evs0],
            of this args' script "or_int mx DEFAULT_BROWSER_OPENING_MAX_ATTEMPT" 0 None]
    by (simp add: startBrowser_def Let_def args'_def)
  from a b c d e show ?thesis by blast
qed


lemma retry_script_eval:
  "fst (startBrowser example_connector example_args (Some 2) retry_script init)
     = Some (Inr (Some \<lparr> worker_id = ''w1'', status = ''running'', browser_url = ''http://farm/session'' \<rparr>))
   \<and> fst (snd (startBrowser example_connector example_args (Some 2) retry_script init)) = [0, Suc 0]
   \<and> waitForUrlOpened
        (attempts (snd (snd (startBrowser example_connector example_args (Some 2) retry_script init))) ! Suc 0)
       = Resolved"
proof -
  define a where
    "a = example_args\<lparr>openingTimeout := Some (or_int (openingTimeout example_args) DEFAULT_BROWSER_OPENING_TIMEOUT)\<rparr>"
  define s0 where
    "s0 = run example_connector (u_startBrowser example_connector (fst (retry_script 0)) a init) (snd (retry_script 0))"
  define s1 where
    "s1 = run example_connector (u_startBrowser example_connector (fst (retry_script (Suc 0))) a s0)
            (snd (retry_script (Suc 0)))"
  have s0: "attempts s0 =
      [\<lparr>browserId = ''id0'', browserName = Some ''chrome'',
          worker = Some \<lparr>worker_id = ''w0'', status = ''running'', browser_url = ''http://farm/session''\<rparr>,
          waitForUrlOpened = Rejected (Reason ''Browser starting timeout expired''), timeoutId = Fired,
          stage = Threw (Reason ''Browser starting timeout expired'')\<rparr>]"
    "listeners s0 = []"
    by (simp_all add: s0_def a_def retry_script_def scenario_defs)
  have s1: "attempts s1 =
      [\<lparr>browserId = ''id0'', browserName = Some ''chrome'',
          worker = Some \<lparr>worker_id = ''w0'', status = ''running'', browser_url = ''http://farm/session''\<rparr>,
          waitForUrlOpened = Rejected (Reason ''Browser starting timeout expired''), timeoutId = Fired,
          stage = Threw (Reason ''Browser starting timeout expired'')\<rparr>,
       \<lparr>browserId = ''id1'', browserName = Some ''chrome'',
          worker = Some \<lparr>worker_id = ''w1'', status = ''running'', browser_url = ''http://farm/session''\<rparr>,
          waitForUrlOpened = Resolved, timeoutId = Cleared,
          stage = Returned \<lparr>worker_id = ''w1'', status = ''running'', browser_url = ''http://farm/session''\<rparr>\<rparr>]"
    by (simp add: s1_def a_def retry_script_def s0 run_def u_startBrowser_unfold createWorker_answer_def
          u_getWorker_next_def getWorker_answer_def emit_def hubHandler_def emitted_def woken_def
          resume_def resume_all_def after_await_def resolve_def
          clearTimeout_def removeListener_def example_args_def running_farm_def getWorker_def
          maxAttempts_def)
  have len0: "length (attempts init) = 0"
    by (simp add: init_def)
  have st0: "stage (attempts s0 ! length (attempts init)) = Threw (Reason ''Browser starting timeout expired'')"
    unfolding len0 by (simp add: s0)
  have st1: "stage (attempts s1 ! length (attempts s0))
               = Returned \<lparr>worker_id = ''w1'', status = ''running'', browser_url = ''http://farm/session''\<rparr>"
    by (simp add: s0 s1)
  have second: "startBrowser_from example_connector a retry_script 2 s0 (Suc 0)
                  (Some (Reason ''Browser starting timeout expired''))
        = (Some (Inr (Some \<lparr>worker_id = ''w1'', status = ''running'', browser_url = ''http://farm/session''\<rparr>)),
           [Suc 0], s1)"
    using startBrowser_from_Returned[where script = retry_script and attempt = "Suc 0" and mx = 2
            and s = s0 and s' = s1 and this = example_connector and args = a
            and error = "Some (Reason ''Browser starting timeout expired'')", OF _ s1_def st1]
    by (simp add: s0)
  have first: "startBrowser_from example_connector a retry_script 2 init 0 None
        = (Some (Inr (Some \<lparr>worker_id = ''w1'', status = ''running'', browser_url = ''http://farm/session''\<rparr>)),
           [0, Suc 0], s1)"
    using startBrowser_from_Threw[where script = retry_script and attempt = 0 and mx = 2
            and s = init and s' = s0 and this = example_connector and args = a
            and error = None, OF _ s0_def st0]
    unfolding second len0 by simp
  have "startBrowser example_connector example_args (Some 2) retry_script init
        = startBrowser_from example_connector a retry_script 2 init 0 None"
    by (simp add: startBrowser_def a_def or_int_def DEFAULT_BROWSER_OPENING_MAX_ATTEMPT_def)
  with first s1 show ?thesis by simp
qed

theorem startBrowser_retry_bound_witness:
  "(2::int) \<noteq> 0
   \<and> length (fst (snd (startBrowser example_connector example_args (Some 2) retry_script init))) \<le> nat 2
   \<and> fst (startBrowser example_connector example_args (Some 2) retry_script init)
       = Some (Inr (Some \<lparr> worker_id = ''w1'', status = ''running'', browser_url = ''http://farm/session'' \<rparr>))
   \<and> fst (snd (startBrowser example_connector example_args (Some 2) retry_script init)) \<noteq> []
   \<and> waitForUrlOpened (attempts (snd (snd (startBrowser example_connector example_args (Some 2) retry_script init)))
        ! last (fst (snd (startBrowser example_connector example_args (Some 2) retry_script init))))
       = Resolved
   \<and> list_ex (carries (fst (retry_script (Suc 0)))) (snd (retry_script (Suc 0)))
   \<and> length (filter (created_by [0, Suc 0])
               (trace (snd (snd (startBrowser example_connector example_args (Some 2) retry_script init)))))
       = 2"
  using startBrowser_retry_bound
          [of 2 example_connector example_args retry_script init "Some 2"
              "\<lparr> worker_id = ''w1'', status = ''running'', browser_url = ''http://farm/session'' \<rparr>" "[]"]
        retry_script_eval
  by (simp add: run_def)

end
